theory Spec2Isabelle
  imports Main "HOL-Library.Word"
begin

section \<open>The request tracker\<close>

text \<open>
  A Go \<open>error\<close> is an interface value: \<open>None\<close> is \<open>nil\<close>, \<open>Some m\<close> is an error
  whose \<open>Error()\<close> text is \<open>m\<close>.

  The tracker keeps its shutdown reason in an \<open>atomic.Value\<close> that holds a \<open>*error\<close>.
  Three layers can each be empty, and the code tests two of them, so all three are kept
  apart: the \<open>atomic.Value\<close> with nothing stored (\<open>None\<close>; \<open>Load()\<close> then yields a nil
  interface and the unchecked type assertion \<open>.(*error)\<close> panics), a stored nil pointer
  (\<open>Some NilPtr\<close>), and a stored pointer to an error variable that is itself nil
  (\<open>Some (Ptr None)\<close>).
\<close>

type_synonym error = "string option"

datatype 'a ptr = NilPtr | Ptr 'a

text \<open>The values sent on the command channel (the \<open>iota\<close> constants).\<close>

datatype cmd = startRequest | endRequest | shutdown

text \<open>
  How an operation can fail to return: it panics, or it cannot proceed in the present
  state (a receive on an empty channel, a send on a full one, a step of a goroutine that
  has already returned).
\<close>

datatype fault = Panics | Waits

text \<open>
  The struct \<open>requestTracker\<close>. A channel is the list of the values in flight, oldest
  first. \<open>C\<close> has capacity 1. \<open>commandChan\<close> has capacity 100 in the source; a sender
  that finds the buffer full parks in the channel's FIFO wait queue with its value, and
  the receiver takes buffered values first and parked ones next, in order. The list is
  therefore the buffer followed by the values of the parked senders: an element at
  position 100 or later belongs to a caller that has not returned yet, and the order
  in which the loop sees the commands is the order of the list.
\<close>

record requestTracker =
  C :: "error list"
  shutdownWait :: int
  shuttingDown :: "32 word"
  shutdownReason :: "error ptr option"
  commandChan :: "cmd list"

text \<open>
  The tracker together with the goroutine \<open>trackerLoop\<close> that
  \<open>startRequestTracker\<close> spawns: the loop's local variables and the clock it reads.
  \<open>activeRequests\<close> is a Go \<open>int\<close>, taken as 64 bits wide. \<open>graceTimer\<close> is the
  pending deadline of the loop's timer in nanoseconds: \<open>None\<close> is the timer as
  \<open>time.NewTimer(time.Duration(math.MaxInt64))\<close> leaves it, which the runtime places at
  the end of its 64-bit clock, so it is never due; \<open>Some d\<close> is the timer after
  \<open>Reset\<close>, due once the clock reaches \<open>d\<close>.
\<close>

record tracker_state = requestTracker +
  activeRequests :: "64 word"
  stopping :: bool
  sentStop :: bool
  graceTimer :: "int option"
  now :: int

definition startRequestTracker :: "int \<Rightarrow> tracker_state" where
  "startRequestTracker w =
     \<lparr>C = [], shutdownWait = w, shuttingDown = 0, shutdownReason = None,
      commandChan = [], activeRequests = 0, stopping = False, sentStop = False,
      graceTimer = None, now = 0\<rparr>"

text \<open>\<open>start\<close>: the result is the returned error and the tracker after the call.\<close>

definition tracker_start ::
  "'a requestTracker_scheme \<Rightarrow> fault + (error \<times> 'a requestTracker_scheme)" where
  "tracker_start t =
     (if shuttingDown t \<noteq> 0 then
        (case shutdownReason t of
           None \<Rightarrow> Inl Panics
         | Some NilPtr \<Rightarrow> Inr (None, t)
         | Some (Ptr reason) \<Rightarrow> Inr (reason, t))
      else Inr (None, t\<lparr>commandChan := commandChan t @ [startRequest]\<rparr>))"

definition tracker_end :: "'a requestTracker_scheme \<Rightarrow> 'a requestTracker_scheme" where
  "tracker_end t = t\<lparr>commandChan := commandChan t @ [endRequest]\<rparr>"

definition tracker_shutdown ::
  "error \<Rightarrow> 'a requestTracker_scheme \<Rightarrow> 'a requestTracker_scheme" where
  "tracker_shutdown reason t =
     t\<lparr>shutdownReason := Some (Ptr reason),
       commandChan := commandChan t @ [shutdown]\<rparr>"

definition sendStop ::
  "bool \<Rightarrow> 'a requestTracker_scheme \<Rightarrow> fault + (bool \<times> 'a requestTracker_scheme)" where
  "sendStop sent t =
     (if \<not> sent then
        (case shutdownReason t of
           None \<Rightarrow> Inl Panics
         | Some NilPtr \<Rightarrow> Inr (False, t)
         | Some (Ptr reason) \<Rightarrow>
             (if length (C t) < 1 then Inr (True, t\<lparr>C := C t @ [reason]\<rparr>)
              else Inl Waits))
      else Inr (True, t))"

text \<open>
  One iteration of the \<open>for !sentStop { select ... }\<close> loop, for each of the two cases of
  the \<open>select\<close>. \<open>set_sentStop\<close> is the assignment \<open>sentStop = t.sendStop(sentStop)\<close>.
\<close>

definition set_sentStop :: "tracker_state \<Rightarrow> fault + tracker_state" where
  "set_sentStop t =
     (case sendStop (sentStop t) t of
        Inl f \<Rightarrow> Inl f
      | Inr (b, t') \<Rightarrow> Inr (t'\<lparr>sentStop := b\<rparr>))"

definition loop_command :: "tracker_state \<Rightarrow> fault + tracker_state" where
  "loop_command t =
     (if sentStop t then Inl Waits
      else case commandChan t of
        [] \<Rightarrow> Inl Waits
      | c # rest \<Rightarrow>
          (let t1 = t\<lparr>commandChan := rest\<rparr> in
           case c of
             startRequest \<Rightarrow> Inr (t1\<lparr>activeRequests := activeRequests t1 + 1\<rparr>)
           | endRequest \<Rightarrow>
               (let t2 = t1\<lparr>activeRequests := activeRequests t1 - 1\<rparr> in
                if stopping t2 \<and> activeRequests t2 = 0 then set_sentStop t2 else Inr t2)
           | shutdown \<Rightarrow>
               (let t2 = t1\<lparr>stopping := True, shuttingDown := 1\<rparr> in
                if sint (activeRequests t2) \<le> 0 then set_sentStop t2
                else Inr (t2\<lparr>graceTimer := Some (now t2 + shutdownWait t2)\<rparr>))))"

definition loop_timer :: "tracker_state \<Rightarrow> fault + tracker_state" where
  "loop_timer t =
     (if sentStop t then Inl Waits
      else case graceTimer t of
        None \<Rightarrow> Inl Waits
      | Some d \<Rightarrow>
          (if d \<le> now t then set_sentStop (t\<lparr>graceTimer := None\<rparr>) else Inl Waits))"

subsection \<open>Interleavings\<close>

text \<open>
  The callers of the tracker, the loop goroutine and the receiver of \<open>C\<close> run
  concurrently. An interleaving is a list of events, each one executed without
  interruption: a call of \<open>start\<close>, \<open>end\<close> or \<open>shutdown\<close>, one iteration of the loop
  taking the command case or the timer case of its \<open>select\<close>, the passing of \<open>d\<close>
  nanoseconds, and the receive \<open><-s.tracker.C\<close> that \<open>Listen\<close> performs. A call
  is one step although it is an atomic load or store followed by a send on the command
  channel; a loop iteration is one step from its receive to the end of its \<open>switch\<close>.
  An event that cannot happen in a state (the loop has returned, the channel it receives
  from is empty, the timer is not due) yields \<open>Waits\<close>, and so has no run through it.
  Each step carries a label saying what an observer sees of it: the error a \<open>start\<close>
  returned, the value the loop sent on \<open>C\<close>, the value received from \<open>C\<close>.
\<close>

datatype event =
  CallStart | CallEnd | CallShutdown error | LoopCommand | LoopTimer | Tick nat | Receive

datatype label = Returned error | Sent error | Received error | Silent

definition loop_label :: "tracker_state \<Rightarrow> tracker_state \<Rightarrow> label" where
  "loop_label t t' = (if length (C t) < length (C t') then Sent (last (C t')) else Silent)"

fun step :: "tracker_state \<Rightarrow> event \<Rightarrow> fault + (label \<times> tracker_state)" where
  "step t CallStart =
     (case tracker_start t of Inl f \<Rightarrow> Inl f | Inr (r, t') \<Rightarrow> Inr (Returned r, t'))"
| "step t CallEnd = Inr (Silent, tracker_end t)"
| "step t (CallShutdown reason) = Inr (Silent, tracker_shutdown reason t)"
| "step t LoopCommand =
     (case loop_command t of Inl f \<Rightarrow> Inl f | Inr t' \<Rightarrow> Inr (loop_label t t', t'))"
| "step t LoopTimer =
     (case loop_timer t of Inl f \<Rightarrow> Inl f | Inr t' \<Rightarrow> Inr (loop_label t t', t'))"
| "step t (Tick d) = Inr (Silent, t\<lparr>now := now t + int d\<rparr>)"
| "step t Receive =
     (case C t of [] \<Rightarrow> Inl Waits | r # rest \<Rightarrow> Inr (Received r, t\<lparr>C := rest\<rparr>))"

fun exec :: "tracker_state \<Rightarrow> event list \<Rightarrow> fault + (label list \<times> tracker_state)" where
  "exec t [] = Inr ([], t)"
| "exec t (e # es) =
     (case step t e of
        Inl f \<Rightarrow> Inl f
      | Inr (l, t') \<Rightarrow>
          (case exec t' es of Inl f \<Rightarrow> Inl f | Inr (ls, t'') \<Rightarrow> Inr (l # ls, t'')))"

text \<open>What a run showed: the values sent on \<open>C\<close>, the values received from it.\<close>

fun sent_values :: "label list \<Rightarrow> error list" where
  "sent_values [] = []"
| "sent_values (Sent r # ls) = r # sent_values ls"
| "sent_values (_ # ls) = sent_values ls"

fun received_values :: "label list \<Rightarrow> error list" where
  "received_values [] = []"
| "received_values (Received r # ls) = r # received_values ls"
| "received_values (_ # ls) = received_values ls"

text \<open>The reason passed to the most recent call of \<open>shutdown\<close> in a run, if there was one.\<close>

definition last_reason :: "event list \<Rightarrow> error option" where
  "last_reason es =
     foldl (\<lambda>acc e. case e of CallShutdown r \<Rightarrow> Some r | _ \<Rightarrow> acc) None es"

text \<open>The events of the loop goroutine and of the clock, as opposed to those of callers.\<close>

fun internal :: "event \<Rightarrow> bool" where
  "internal LoopCommand = True"
| "internal LoopTimer = True"
| "internal (Tick d) = True"
| "internal _ = False"

section \<open>Invariants of the tracker\<close>

text \<open>
  What holds of every state a run reaches, whatever the callers do. The stored reason is
  the one of the most recent \<open>shutdown\<close> call; a \<open>shutdown\<close> command waits in the
  channel or the loop is stopping as soon as one was called; the flag \<open>shuttingDown\<close>
  mirrors the loop's \<open>stopping\<close>; the timer is armed while the loop drains; what was
  sent on \<open>C\<close> and not yet received is what \<open>C\<close> holds; and the loop has sent once
  exactly when \<open>sentStop\<close> is set.
\<close>

definition tracker_inv :: "event list \<Rightarrow> label list \<Rightarrow> tracker_state \<Rightarrow> bool" where
  "tracker_inv es ls t \<longleftrightarrow>
     shutdownReason t = map_option Ptr (last_reason es) \<and>
     (shutdown \<in> set (commandChan t) \<longrightarrow> last_reason es \<noteq> None) \<and>
     (last_reason es \<noteq> None \<longrightarrow> stopping t \<or> shutdown \<in> set (commandChan t)) \<and>
     (stopping t \<longrightarrow> last_reason es \<noteq> None) \<and>
     shuttingDown t = (if stopping t then 1 else 0) \<and>
     (sentStop t \<longrightarrow> stopping t) \<and>
     (graceTimer t \<noteq> None \<longrightarrow> stopping t) \<and>
     (stopping t \<and> \<not> sentStop t \<longrightarrow> graceTimer t \<noteq> None) \<and>
     sent_values ls = received_values ls @ C t \<and>
     length (sent_values ls) = (if sentStop t then 1 else 0)"

section \<open>The phases of the specification\<close>




text \<open>
  The counter \<open>activeRequests\<close> moves by one per loop iteration, so in a run of fewer
  than \<open>2 ^ 63\<close> events it cannot wrap around; and while the loop drains it is positive,
  because the loop leaves as soon as it is not.
\<close>

definition count_inv :: "event list \<Rightarrow> tracker_state \<Rightarrow> bool" where
  "count_inv es t \<longleftrightarrow>
     - int (length es) \<le> sint (activeRequests t) \<and>
     sint (activeRequests t) \<le> int (length es) \<and>
     (stopping t \<and> \<not> sentStop t \<longrightarrow> 0 < sint (activeRequests t))"

section \<open>Counting calls and commands\<close>

text \<open>The errors that the \<open>start\<close> calls of a run returned, in order.\<close>

fun returned_values :: "label list \<Rightarrow> error list" where
  "returned_values [] = []"
| "returned_values (Returned r # ls) = r # returned_values ls"
| "returned_values (_ # ls) = returned_values ls"

text \<open>
  What the commands waiting in the channel will add to the counter once the loop has
  taken them, in the counter's own 64-bit arithmetic.
\<close>

fun pending :: "cmd list \<Rightarrow> 64 word" where
  "pending [] = 0"
| "pending (startRequest # q) = pending q + 1"
| "pending (endRequest # q) = pending q - 1"
| "pending (shutdown # q) = pending q"

text \<open>
  The counter and the waiting commands account for every call made so far, and every
  \<open>start\<close> returned nil. This holds as long as no \<open>shutdown\<close> was called.
\<close>

definition balance_inv :: "event list \<Rightarrow> label list \<Rightarrow> tracker_state \<Rightarrow> bool" where
  "balance_inv es ls t \<longleftrightarrow>
     activeRequests t + pending (commandChan t) =
       of_nat (count_list es CallStart) - of_nat (count_list es CallEnd) \<and>
     returned_values ls = replicate (count_list es CallStart) None"

section \<open>Callers that pair start and end\<close>

text \<open>
  The Guarded Handler calls \<open>end\<close> only for a request whose \<open>start\<close> returned nil.
  \<open>inflight\<close> follows a run and counts the requests admitted and not yet ended: a
  \<open>start\<close> that returned nil adds one, an \<open>end\<close> takes one away, and an \<open>end\<close> with
  none in flight breaks the pairing (\<open>None\<close>).
\<close>

fun pairing :: "nat option \<Rightarrow> event \<times> label \<Rightarrow> nat option" where
  "pairing None _ = None"
| "pairing (Some n) (CallStart, Returned None) = Some (Suc n)"
| "pairing (Some n) (CallEnd, _) = (if 0 < n then Some (n - 1) else None)"
| "pairing (Some n) _ = Some n"

definition inflight :: "event list \<Rightarrow> label list \<Rightarrow> nat option" where
  "inflight es ls = foldl pairing (Some 0) (zip es ls)"

text \<open>
  What the waiting commands add to the counter, as an integer, and whether the counter
  stays at or above zero while the loop takes them one by one.
\<close>

fun delta :: "cmd \<Rightarrow> int" where
  "delta startRequest = 1"
| "delta endRequest = - 1"
| "delta shutdown = 0"

fun covered :: "int \<Rightarrow> cmd list \<Rightarrow> bool" where
  "covered a [] = (0 \<le> a)"
| "covered a (c # q) = (0 \<le> a \<and> covered (a + delta c) q)"

text \<open>
  With paired callers: the counter is not negative, and while the loop has not seen a
  \<open>shutdown\<close> command, the counter and the waiting commands add up to the number of
  requests in flight without passing below zero on the way.
\<close>

definition paired_inv :: "nat \<Rightarrow> tracker_state \<Rightarrow> bool" where
  "paired_inv n t \<longleftrightarrow>
     0 \<le> sint (activeRequests t) \<and>
     (\<not> stopping t \<longrightarrow>
        covered (sint (activeRequests t)) (commandChan t) \<and>
        sint (activeRequests t) + sum_list (map delta (commandChan t)) = int n)"

section \<open>The guarded handler (scaffold.go)\<close>

text \<open>
  An \<open>http.ResponseWriter\<close> as the handler uses it: the header map that \<open>Header()\<close>
  returns, and what has gone to the client. \<open>WriteHeader\<close> sends the status line with
  the headers as they are at that moment and does nothing on a second call; \<open>Write\<close>
  sends status 200 first when no status has been sent.
\<close>

record responseWriter =
  header :: "string \<rightharpoonup> string list"
  wroteHeader :: bool
  statusCode :: nat
  sentHeader :: "string \<rightharpoonup> string list"
  body :: string

definition Header_Set :: "string \<Rightarrow> string \<Rightarrow> responseWriter \<Rightarrow> responseWriter" where
  "Header_Set k v w = w\<lparr>header := (header w)(k \<mapsto> [v])\<rparr>"

definition WriteHeader :: "nat \<Rightarrow> responseWriter \<Rightarrow> responseWriter" where
  "WriteHeader code w =
     (if wroteHeader w then w
      else w\<lparr>wroteHeader := True, statusCode := code, sentHeader := header w\<rparr>)"

definition Write :: "string \<Rightarrow> responseWriter \<Rightarrow> responseWriter" where
  "Write b w =
     (let w' = (if wroteHeader w then w else WriteHeader 200 w)
      in w'\<lparr>body := body w' @ b\<rparr>)"

definition StatusServiceUnavailable :: nat where
  "StatusServiceUnavailable = 503"

text \<open>
  How a call of the downstream handler ends: it returns, or it panics and the stack
  unwinds through \<open>ServeHTTP\<close>. The downstream handler is any function of the response
  writer, the request and a state of its own; it yields how it ended, what it wrote and
  its new state.
\<close>

datatype exit = Returns | Unwinds

type_synonym ('q, 'd) handler = "responseWriter \<Rightarrow> 'q \<Rightarrow> 'd \<Rightarrow> exit \<times> responseWriter \<times> 'd"

text \<open>
  \<open>httpHandler.ServeHTTP\<close>. Two functions it calls are not among the sources and are
  parameters here: \<open>SelectMediaType\<close>, which picks a media type for the request from the
  list of choices, and \<open>json.Marshal\<close> on a \<open>map[string]string\<close>, which never fails.
  The result is how \<open>ServeHTTP\<close> ended, the tracker, the response and the downstream
  state after it. There is no \<open>defer\<close> in the source: \<open>end\<close> is the statement after the
  downstream call, so a panic of the downstream handler passes it by.
\<close>

definition ServeHTTP ::
  "('q \<Rightarrow> string list \<Rightarrow> string) \<Rightarrow> ((string \<rightharpoonup> string) \<Rightarrow> string) \<Rightarrow> ('q, 'd) handler \<Rightarrow>
   'a requestTracker_scheme \<Rightarrow> responseWriter \<Rightarrow> 'q \<Rightarrow> 'd \<Rightarrow>
   fault + (exit \<times> 'a requestTracker_scheme \<times> responseWriter \<times> 'd)" where
  "ServeHTTP SelectMediaType Marshal handler t resp req d =
     (case tracker_start t of
        Inl f \<Rightarrow> Inl f
      | Inr (startErr, t1) \<Rightarrow>
          (case startErr of
             None \<Rightarrow>
               (case handler resp req d of
                  (Unwinds, resp', d') \<Rightarrow> Inr (Unwinds, t1, resp', d')
                | (Returns, resp', d') \<Rightarrow> Inr (Returns, tracker_end t1, resp', d'))
           | Some message \<Rightarrow>
               (let mt = SelectMediaType req [''text/plain'', ''application/json''];
                    resp1 = Header_Set ''Content-Type'' mt resp;
                    resp2 = WriteHeader StatusServiceUnavailable resp1
                in if mt = ''application/json''
                   then Inr (Returns, t1,
                          Write (Marshal [''error'' \<mapsto> ''Stopping'', ''message'' \<mapsto> message]) resp2, d)
                   else Inr (Returns, t1, Write message resp2, d))))"

section \<open>The scaffold (scaffold.go)\<close>

text \<open>
  The sources hold two revisions of \<open>scaffold.go\<close>. The later one is modelled: its
  \<open>HTTPScaffold\<close> has the field \<open>open\<close>, and its \<open>Listen\<close> opens the scaffold when
  needed and returns the error it receives, which is how the example uses it.

  A listener is its port and the number of times \<open>Close\<close> was called on it.
  \<open>net.ListenTCP\<close> is the environment's: a function from the port to an error text or
  a listener.
\<close>

record listener =
  port :: int
  closed :: nat

record HTTPScaffold =
  insecurePort :: int
  "open" :: bool
  tracker :: "tracker_state option"
  insecureListener :: "listener option"







text \<open>\<open>Shutdown\<close> is \<open>shutdown\<close> on the scaffold's tracker.\<close>

definition Shutdown :: "error \<Rightarrow> HTTPScaffold \<Rightarrow> fault + HTTPScaffold" where
  "Shutdown reason s =
     (case tracker s of
        None \<Rightarrow> Inl Panics
      | Some t \<Rightarrow> Inr (s\<lparr>tracker := Some (tracker_shutdown reason t)\<rparr>))"

section \<open>Facts about runs\<close>

lemma exec_append:
  "exec t (es @ es') =
     (case exec t es of
        Inl f \<Rightarrow> Inl f
      | Inr (ls, t') \<Rightarrow>
          (case exec t' es' of Inl f \<Rightarrow> Inl f | Inr (ls', t'') \<Rightarrow> Inr (ls @ ls', t'')))"
  by (induction es arbitrary: t) (auto split: sum.splits)

lemma exec_snoc_Inr:
  "exec t (es @ [e]) = Inr (ls', t'') \<longleftrightarrow>
     (\<exists>ls t' l. exec t es = Inr (ls, t') \<and> step t' e = Inr (l, t'') \<and> ls' = ls @ [l])"
  by (auto simp: exec_append split: sum.splits)

text \<open>Induction along a run, from its first event to its last.\<close>

lemma exec_induct [consumes 1, case_names init step]:
  assumes "exec t0 es = Inr (ls, t)"
    and "P [] [] t0"
    and "\<And>es ls t e l t'. exec t0 es = Inr (ls, t) \<Longrightarrow> P es ls t \<Longrightarrow> step t e = Inr (l, t')
           \<Longrightarrow> P (es @ [e]) (ls @ [l]) t'"
  shows "P es ls t"
  using assms(1)
proof (induction es arbitrary: ls t rule: rev_induct)
  case Nil
  then show ?case using assms(2) by simp
next
  case (snoc e es)
  then obtain ls0 t1 l
    where a: "exec t0 es = Inr (ls0, t1)" "step t1 e = Inr (l, t)" "ls = ls0 @ [l]"
    by (auto simp: exec_snoc_Inr)
  from snoc.IH[OF a(1)] a assms(3) show ?case by blast
qed

lemma sent_values_append: "sent_values (ls @ ls') = sent_values ls @ sent_values ls'"
  by (induction ls rule: sent_values.induct) auto

lemma received_values_append:
  "received_values (ls @ ls') = received_values ls @ received_values ls'"
  by (induction ls rule: received_values.induct) auto

lemma last_reason_Nil: "last_reason [] = None"
  by (simp add: last_reason_def)

lemma last_reason_snoc:
  "last_reason (es @ [e]) = (case e of CallShutdown r \<Rightarrow> Some r | _ \<Rightarrow> last_reason es)"
  by (cases e) (simp_all add: last_reason_def)

lemma last_reason_None: "last_reason es = None \<longleftrightarrow> (\<forall>r. CallShutdown r \<notin> set es)"
  by (induction es rule: rev_induct) (auto simp: last_reason_Nil last_reason_snoc split: event.splits)

subsection \<open>What one event does\<close>

lemma set_sentStop_cases:
  assumes "set_sentStop t = Inr t'" and "\<not> sentStop t"
  shows "(shutdownReason t = Some NilPtr \<and> t' = t) \<or>
         (\<exists>r. shutdownReason t = Some (Ptr r) \<and> C t = [] \<and> t' = t\<lparr>C := [r], sentStop := True\<rparr>)"
  using assms
  by (auto simp: set_sentStop_def sendStop_def split: option.splits ptr.splits if_splits)

lemma loop_command_cases:
  assumes "loop_command t = Inr t'"
  obtains
    (start) rest where "commandChan t = startRequest # rest"
      "t' = t\<lparr>commandChan := rest, activeRequests := activeRequests t + 1\<rparr>"
  | (end_on) rest where "commandChan t = endRequest # rest"
      "\<not> (stopping t \<and> activeRequests t - 1 = 0)"
      "t' = t\<lparr>commandChan := rest, activeRequests := activeRequests t - 1\<rparr>"
  | (end_stop) rest where "commandChan t = endRequest # rest"
      "stopping t" "activeRequests t - 1 = 0"
      "set_sentStop (t\<lparr>commandChan := rest, activeRequests := activeRequests t - 1\<rparr>) = Inr t'"
  | (shutdown_stop) rest where "commandChan t = shutdown # rest"
      "sint (activeRequests t) \<le> 0"
      "set_sentStop (t\<lparr>commandChan := rest, stopping := True, shuttingDown := 1\<rparr>) = Inr t'"
  | (shutdown_arm) rest where "commandChan t = shutdown # rest"
      "0 < sint (activeRequests t)"
      "t' = t\<lparr>commandChan := rest, stopping := True, shuttingDown := 1,
              graceTimer := Some (now t + shutdownWait t)\<rparr>"
  using assms
  by (auto simp: loop_command_def Let_def split: if_splits list.splits cmd.splits)

lemma loop_command_running: "loop_command t = Inr t' \<Longrightarrow> \<not> sentStop t"
  by (auto simp: loop_command_def split: if_splits)

lemma loop_timer_cases:
  assumes "loop_timer t = Inr t'"
  obtains d where "graceTimer t = Some d" "d \<le> now t" "\<not> sentStop t"
    "set_sentStop (t\<lparr>graceTimer := None\<rparr>) = Inr t'"
  using assms
  by (auto simp: loop_timer_def split: if_splits option.splits)

subsection \<open>The invariant holds along every run\<close>

lemma tracker_inv_init: "tracker_inv [] [] (startRequestTracker w)"
  by (simp add: tracker_inv_def startRequestTracker_def last_reason_Nil)

lemma tracker_inv_set_sentStop:
  assumes "set_sentStop t = Inr t'" and "\<not> sentStop t" and "stopping t"
    and "shutdownReason t = map_option Ptr (last_reason es)"
    and "last_reason es \<noteq> None"
    and "sent_values ls = received_values ls @ C t"
    and "sent_values ls = []"
    and "shuttingDown t = 1"
    and "internal e" and "C t0 = C t"
  shows "tracker_inv (es @ [e]) (ls @ [loop_label t0 t']) t'"
proof -
  from assms(4,5) obtain r where r: "shutdownReason t = Some (Ptr r)" "last_reason es = Some r"
    by auto
  with set_sentStop_cases[OF assms(1,2)]
  have t': "t' = t\<lparr>C := [r], sentStop := True\<rparr>" and c: "C t = []"
    by auto
  from assms(9) have lr: "last_reason (es @ [e]) = last_reason es"
    by (cases e) (simp_all add: last_reason_snoc)
  show ?thesis
    using assms(3,6,7,8,10) r c
    by (simp add: tracker_inv_def t' lr loop_label_def sent_values_append received_values_append)
qed

lemma tracker_inv_CallStart:
  assumes "tracker_inv es ls t" and "step t CallStart = Inr (l, t')"
  shows "tracker_inv (es @ [CallStart]) (ls @ [l]) t'"
  using assms
  by (auto simp: tracker_inv_def tracker_start_def last_reason_snoc sent_values_append
        received_values_append split: if_splits option.splits ptr.splits)

lemma tracker_inv_CallEnd:
  assumes "tracker_inv es ls t" and "step t CallEnd = Inr (l, t')"
  shows "tracker_inv (es @ [CallEnd]) (ls @ [l]) t'"
proof -
  from assms(2) have "l = Silent" and "t' = t\<lparr>commandChan := commandChan t @ [endRequest]\<rparr>"
    by (auto simp: tracker_end_def)
  with assms(1) show ?thesis
    by (auto simp: tracker_inv_def last_reason_snoc sent_values_append received_values_append)
qed

lemma tracker_inv_CallShutdown:
  assumes "tracker_inv es ls t" and "step t (CallShutdown r) = Inr (l, t')"
  shows "tracker_inv (es @ [CallShutdown r]) (ls @ [l]) t'"
proof -
  from assms(2) have "l = Silent" and "t' = t\<lparr>shutdownReason := Some (Ptr r), commandChan := commandChan t @ [shutdown]\<rparr>"
    by (auto simp: tracker_shutdown_def)
  with assms(1) show ?thesis
    by (auto simp: tracker_inv_def last_reason_snoc sent_values_append received_values_append)
qed

lemma tracker_inv_LoopCommand:
  assumes inv: "tracker_inv es ls t" and st: "step t LoopCommand = Inr (l, t')"
  shows "tracker_inv (es @ [LoopCommand]) (ls @ [l]) t'"
proof -
  from st have lc: "loop_command t = Inr t'" and l: "l = loop_label t t'"
    by (auto split: sum.splits)
  have lr: "last_reason (es @ [LoopCommand]) = last_reason es"
    by (simp add: last_reason_snoc)
  have run: "\<not> sentStop t" using lc by (rule loop_command_running)
  with inv have nothing: "sent_values ls = []" "C t = []"
    by (auto simp: tracker_inv_def)
  from lc show ?thesis
  proof (cases rule: loop_command_cases)
    case (start rest)
    with inv run show ?thesis
      by (auto simp: tracker_inv_def lr l loop_label_def sent_values_append received_values_append)
  next
    case (end_on rest)
    with inv run show ?thesis
      by (auto simp: tracker_inv_def lr l loop_label_def sent_values_append received_values_append)
  next
    case (end_stop rest)
    let ?t2 = "t\<lparr>commandChan := rest, activeRequests := activeRequests t - 1\<rparr>"
    have "tracker_inv (es @ [LoopCommand]) (ls @ [loop_label t t']) t'"
      using inv run nothing end_stop
      by (intro tracker_inv_set_sentStop[where t = ?t2]) (auto simp: tracker_inv_def)
    then show ?thesis by (simp add: l)
  next
    case (shutdown_stop rest)
    let ?t2 = "t\<lparr>commandChan := rest, stopping := True, shuttingDown := 1\<rparr>"
    have "tracker_inv (es @ [LoopCommand]) (ls @ [loop_label t t']) t'"
      using inv run nothing shutdown_stop
      by (intro tracker_inv_set_sentStop[where t = ?t2]) (auto simp: tracker_inv_def)
    then show ?thesis by (simp add: l)
  next
    case (shutdown_arm rest)
    with inv run show ?thesis
      by (auto simp: tracker_inv_def lr l loop_label_def sent_values_append received_values_append)
  qed
qed

lemma tracker_inv_LoopTimer:
  assumes inv: "tracker_inv es ls t" and st: "step t LoopTimer = Inr (l, t')"
  shows "tracker_inv (es @ [LoopTimer]) (ls @ [l]) t'"
proof -
  from st have lt: "loop_timer t = Inr t'" and l: "l = loop_label t t'"
    by (auto split: sum.splits)
  from lt obtain d where d: "graceTimer t = Some d" "\<not> sentStop t"
    "set_sentStop (t\<lparr>graceTimer := None\<rparr>) = Inr t'"
    by (rule loop_timer_cases)
  have "tracker_inv (es @ [LoopTimer]) (ls @ [loop_label t t']) t'"
    using inv d
    by (intro tracker_inv_set_sentStop[where t = "t\<lparr>graceTimer := None\<rparr>"])
      (auto simp: tracker_inv_def)
  then show ?thesis by (simp add: l)
qed

lemma tracker_inv_Tick:
  assumes "tracker_inv es ls t" and "step t (Tick d) = Inr (l, t')"
  shows "tracker_inv (es @ [Tick d]) (ls @ [l]) t'"
proof -
  from assms(2) have "l = Silent" and "t' = t\<lparr>now := now t + int d\<rparr>"
    by (auto)
  with assms(1) show ?thesis
    by (auto simp: tracker_inv_def last_reason_snoc sent_values_append received_values_append)
qed

lemma tracker_inv_Receive:
  assumes "tracker_inv es ls t" and "step t Receive = Inr (l, t')"
  shows "tracker_inv (es @ [Receive]) (ls @ [l]) t'"
  using assms
  by (auto simp: tracker_inv_def last_reason_snoc sent_values_append received_values_append
        split: list.splits if_splits)

lemma tracker_inv_step:
  assumes "tracker_inv es ls t" and "step t e = Inr (l, t')"
  shows "tracker_inv (es @ [e]) (ls @ [l]) t'"
  using assms
  by (cases e)
    (auto intro: tracker_inv_CallStart tracker_inv_CallEnd tracker_inv_CallShutdown
      tracker_inv_LoopCommand tracker_inv_LoopTimer tracker_inv_Tick tracker_inv_Receive)

lemma tracker_inv_exec:
  assumes "exec (startRequestTracker w) es = Inr (ls, t)"
  shows "tracker_inv es ls t"
  using assms
  by (induction rule: exec_induct) (auto intro: tracker_inv_init tracker_inv_step)

lemma tracker_invD:
  assumes "tracker_inv es ls t"
  shows "shutdownReason t = map_option Ptr (last_reason es)"
    and "shutdown \<in> set (commandChan t) \<Longrightarrow> last_reason es \<noteq> None"
    and "last_reason es \<noteq> None \<Longrightarrow> stopping t \<or> shutdown \<in> set (commandChan t)"
    and "stopping t \<Longrightarrow> last_reason es \<noteq> None"
    and "shuttingDown t = (if stopping t then 1 else 0)"
    and "sentStop t \<Longrightarrow> stopping t"
    and "graceTimer t \<noteq> None \<Longrightarrow> stopping t"
    and "stopping t \<Longrightarrow> \<not> sentStop t \<Longrightarrow> graceTimer t \<noteq> None"
    and "sent_values ls = received_values ls @ C t"
    and "length (sent_values ls) = (if sentStop t then 1 else 0)"
  using assms unfolding tracker_inv_def by blast+

subsection \<open>The loop alone reaches the stop sequence\<close>

text \<open>
  From a draining or about-to-drain state with a stored reason and an empty \<open>C\<close>, the
  loop and the clock alone deliver the completion event: the loop works through the
  command channel, and if the channel runs empty first, the grace timer comes due.
\<close>

lemma set_sentStop_fires:
  assumes "\<not> sentStop t" and "shutdownReason t = Some (Ptr r)" and "C t = []"
  shows "set_sentStop t = Inr (t\<lparr>C := [r], sentStop := True\<rparr>)"
  using assms by (simp add: set_sentStop_def sendStop_def)


lemma drain_fires:
  assumes "\<not> sentStop t" and "C t = []" and "shutdownReason t = Some (Ptr r)"
    and "stopping t \<longrightarrow> graceTimer t \<noteq> None"
    and "\<not> stopping t \<longrightarrow> shutdown \<in> set (commandChan t)"
  shows "\<exists>es' ls' t'. (\<forall>e\<in>set es'. internal e) \<and> length es' \<le> length (commandChan t) + 2 \<and>
           exec t es' = Inr (ls', t') \<and> sent_values ls' = [r] \<and> sentStop t'"
  using assms
proof (induction "commandChan t" arbitrary: t)
  case Nil
  then obtain d where d: "graceTimer t = Some d" by auto
  let ?t1 = "t\<lparr>now := now t + int (nat (d - now t))\<rparr>"
  let ?t2 = "t\<lparr>now := now t + int (nat (d - now t)), graceTimer := None, C := [r], sentStop := True\<rparr>"
  have "set_sentStop (?t1\<lparr>graceTimer := None\<rparr>) = Inr ?t2"
    using Nil.prems by (simp add: set_sentStop_def sendStop_def)
  then have "loop_timer ?t1 = Inr ?t2"
    using Nil.prems d by (simp add: loop_timer_def)
  then have "exec t [Tick (nat (d - now t)), LoopTimer] = Inr ([Silent, Sent r], ?t2)"
    using Nil.prems by (simp add: loop_label_def)
  then show ?case
    by (intro exI[where x = "[Tick (nat (d - now t)), LoopTimer]"] exI[where x = "[Silent, Sent r]"]
        exI[where x = ?t2]) simp
next
  case (Cons c rest)
  note q = Cons.hyps(2)[symmetric]
  have fires: "\<exists>es' ls' t'. (\<forall>e\<in>set es'. internal e) \<and> length es' \<le> length (commandChan t) + 2 \<and>
           exec t es' = Inr (ls', t') \<and> sent_values ls' = [r] \<and> sentStop t'"
    if "loop_command t = Inr (t1\<lparr>C := [r], sentStop := True\<rparr>)" and "C t1 = []" for t1
  proof -
    have "exec t [LoopCommand] = Inr ([Sent r], t1\<lparr>C := [r], sentStop := True\<rparr>)"
      using that Cons.prems(2) by (simp add: loop_label_def)
    then show ?thesis
      by (intro exI[where x = "[LoopCommand]"] exI[where x = "[Sent r]"]
          exI[where x = "t1\<lparr>C := [r], sentStop := True\<rparr>"]) simp
  qed
  have goes: "\<exists>es' ls' t'. (\<forall>e\<in>set es'. internal e) \<and> length es' \<le> length (commandChan t) + 2 \<and>
           exec t es' = Inr (ls', t') \<and> sent_values ls' = [r] \<and> sentStop t'"
    if lc: "loop_command t = Inr t1" and "rest = commandChan t1" and "\<not> sentStop t1"
      and "C t1 = []" and "shutdownReason t1 = Some (Ptr r)"
      and "stopping t1 \<longrightarrow> graceTimer t1 \<noteq> None"
      and "\<not> stopping t1 \<longrightarrow> shutdown \<in> set (commandChan t1)" for t1
  proof -
    from Cons.hyps(1)[OF that(2-7)] obtain es' ls' t'
      where *: "\<forall>e\<in>set es'. internal e" "length es' \<le> length (commandChan t1) + 2"
        "exec t1 es' = Inr (ls', t')" "sent_values ls' = [r]" "sentStop t'"
      by blast
    have l: "loop_label t t1 = Silent"
      using that(4) Cons.prems(2) by (simp add: loop_label_def)
    have "exec t (LoopCommand # es') = Inr (Silent # ls', t')"
      using lc *(3) l by simp
    with * that(2) q show ?thesis
      by (intro exI[where x = "LoopCommand # es'"] exI[where x = "Silent # ls'"] exI[where x = t'])
        simp
  qed
  show ?case
  proof (cases c)
    case startRequest
    with q Cons.prems show ?thesis
      by (intro goes[where ?t1.0 = "t\<lparr>commandChan := rest, activeRequests := activeRequests t + 1\<rparr>"])
        (auto simp: loop_command_def)
  next
    case endRequest
    let ?t1 = "t\<lparr>commandChan := rest, activeRequests := activeRequests t - 1\<rparr>"
    show ?thesis
    proof (cases "stopping t \<and> activeRequests t - 1 = 0")
      case True
      with endRequest q Cons.prems show ?thesis
        by (intro fires[where ?t1.0 = ?t1]) (auto simp: loop_command_def set_sentStop_fires)
    next
      case False
      with endRequest q Cons.prems show ?thesis
        by (intro goes[where ?t1.0 = ?t1]) (auto simp: loop_command_def)
    qed
  next
    case shutdown
    let ?t1 = "t\<lparr>commandChan := rest, stopping := True, shuttingDown := 1\<rparr>"
    show ?thesis
    proof (cases "sint (activeRequests t) \<le> 0")
      case True
      with shutdown q Cons.prems show ?thesis
        by (intro fires[where ?t1.0 = ?t1]) (auto simp: loop_command_def set_sentStop_fires)
    next
      case False
      with shutdown q Cons.prems show ?thesis
        by (intro goes[where ?t1.0 = "?t1\<lparr>graceTimer := Some (now t + shutdownWait t)\<rparr>"])
          (auto simp: loop_command_def)
    qed
  qed
qed

section \<open>The completion event\<close>

text \<open>
  C2. Over the lifetime of one tracker the loop sends on \<open>C\<close> at most once and the
  receiver gets at most one value, whatever calls, loop iterations and timer expiries the
  run contains; nothing is sent before \<open>shutdown\<close> was called; and once \<open>shutdown\<close> was
  called the event is not lost: while nothing has been sent, a command is waiting for the
  loop or the grace timer is armed, and the loop and the clock alone, in at most as many
  steps as there are commands waiting plus two, bring the number of values sent to
  exactly one.
\<close>

theorem completion_event_exactly_once:
  assumes "exec (startRequestTracker w) es = Inr (ls, t)"
  shows "length (sent_values ls) \<le> 1 \<and> length (received_values ls) \<le> 1 \<and>
         (sent_values ls \<noteq> [] \<longrightarrow> (\<exists>r. CallShutdown r \<in> set es)) \<and>
         ((\<exists>r. CallShutdown r \<in> set es) \<longrightarrow>
            (sent_values ls = [] \<longrightarrow> commandChan t \<noteq> [] \<or> graceTimer t \<noteq> None) \<and>
            (\<exists>es' ls' t'. (\<forall>e\<in>set es'. internal e) \<and>
               length es' \<le> length (commandChan t) + 2 \<and>
               exec t es' = Inr (ls', t') \<and> length (sent_values (ls @ ls')) = 1))"
proof -
  from assms have inv: "tracker_inv es ls t" by (rule tracker_inv_exec)
  have once: "length (sent_values ls) \<le> 1"
    using tracker_invD(10)[OF inv] by simp
  have "length (received_values ls) \<le> length (sent_values ls)"
    using tracker_invD(9)[OF inv] by simp
  with once have recv: "length (received_values ls) \<le> 1" by simp
  have after: "\<exists>r. CallShutdown r \<in> set es" if "sent_values ls \<noteq> []"
  proof -
    from that tracker_invD(10)[OF inv] have "sentStop t"
      by (auto split: if_splits)
    then have "last_reason es \<noteq> None"
      using tracker_invD(4,6)[OF inv] by blast
    then show ?thesis by (simp add: last_reason_None)
  qed
  have live: "(sent_values ls = [] \<longrightarrow> commandChan t \<noteq> [] \<or> graceTimer t \<noteq> None) \<and>
      (\<exists>es' ls' t'. (\<forall>e\<in>set es'. internal e) \<and> length es' \<le> length (commandChan t) + 2 \<and>
         exec t es' = Inr (ls', t') \<and> length (sent_values (ls @ ls')) = 1)"
    if "\<exists>r. CallShutdown r \<in> set es"
  proof -
    from that obtain r where r: "last_reason es = Some r"
      using last_reason_None[of es] by auto
    show ?thesis
    proof (cases "sentStop t")
      case True
      with tracker_invD(10)[OF inv] have "length (sent_values ls) = 1" by simp
      then have "(\<forall>e\<in>set []. internal e) \<and> length ([]::event list) \<le> length (commandChan t) + 2 \<and>
          exec t [] = Inr ([], t) \<and> length (sent_values (ls @ [])) = 1"
        by simp
      moreover have "sent_values ls \<noteq> []"
        using \<open>length (sent_values ls) = 1\<close> by auto
      ultimately show ?thesis by blast
    next
      case False
      with tracker_invD(10)[OF inv] have none: "sent_values ls = []" by simp
      with tracker_invD(9)[OF inv] have c: "C t = []" by simp
      have pre: "C t = []" "shutdownReason t = Some (Ptr r)"
        "stopping t \<longrightarrow> graceTimer t \<noteq> None" "\<not> stopping t \<longrightarrow> shutdown \<in> set (commandChan t)"
        using c r False tracker_invD(1,3,8)[OF inv] by auto
      from drain_fires[OF False pre] obtain es' ls' t'
        where "\<forall>e\<in>set es'. internal e" "length es' \<le> length (commandChan t) + 2"
          "exec t es' = Inr (ls', t')" "sent_values ls' = [r]"
        by blast
      then have "\<exists>es' ls' t'. (\<forall>e\<in>set es'. internal e) \<and> length es' \<le> length (commandChan t) + 2 \<and>
         exec t es' = Inr (ls', t') \<and> length (sent_values (ls @ ls')) = 1"
        using none by (auto simp: sent_values_append)
      moreover have "commandChan t \<noteq> [] \<or> graceTimer t \<noteq> None"
        using pre(3,4) by (cases "stopping t") auto
      ultimately show ?thesis by blast
    qed
  qed
  from once recv after live show ?thesis by blast
qed

theorem completion_event_exactly_once_witness:
  "\<exists>ls t. exec (startRequestTracker 30)
       [CallStart, LoopCommand, CallShutdown (Some ''Stop''), LoopCommand,
        CallShutdown (Some ''Again''), CallEnd] = Inr (ls, t) \<and>
     length (sent_values ls) \<le> 1 \<and> length (received_values ls) \<le> 1 \<and>
     (commandChan t \<noteq> [] \<or> graceTimer t \<noteq> None) \<and>
     (\<exists>es' ls' t'. (\<forall>e\<in>set es'. internal e) \<and> length es' \<le> length (commandChan t) + 2 \<and>
        exec t es' = Inr (ls', t') \<and> length (sent_values (ls @ ls')) = 1)"
proof -
  let ?es = "[CallStart, LoopCommand, CallShutdown (Some ''Stop''), LoopCommand,
        CallShutdown (Some ''Again''), CallEnd]"
  let ?ls = "[Returned None, Silent, Silent, Silent, Silent, Silent]"
  let ?t = "\<lparr>C = [], shutdownWait = 30, shuttingDown = 1,
      shutdownReason = Some (Ptr (Some ''Again'')), commandChan = [shutdown, endRequest],
      activeRequests = 1, stopping = True, sentStop = False, graceTimer = Some 30, now = 0\<rparr>"
  have run: "exec (startRequestTracker 30) ?es = Inr (?ls, ?t)"
    by (simp add: startRequestTracker_def tracker_start_def tracker_end_def tracker_shutdown_def
        loop_command_def loop_label_def)
  have called: "\<exists>r. CallShutdown r \<in> set ?es"
    by (intro exI[where x = "Some ''Stop''"]) simp
  have none: "sent_values ?ls = []" by simp
  note th = completion_event_exactly_once[OF run]
  note live = th[THEN conjunct2, THEN conjunct2, THEN conjunct2, THEN mp, OF called]
  show ?thesis
    using run th[THEN conjunct1] th[THEN conjunct2, THEN conjunct1]
      live[THEN conjunct1, THEN mp, OF none] live[THEN conjunct2]
    by (intro exI[where x = ?ls] exI[where x = ?t] conjI)
qed

section \<open>The stored reason\<close>

lemma step_shuttingDown:
  assumes "step t e = Inr (l, t')" and "shuttingDown t \<noteq> 0"
  shows "shuttingDown t' \<noteq> 0"
proof (cases e)
  case LoopCommand
  with assms(1) have "loop_command t = Inr t'" by (auto split: sum.splits)
  then show ?thesis
    using assms(2)
    by (cases rule: loop_command_cases)
      (auto simp: set_sentStop_def sendStop_def split: option.splits ptr.splits if_splits)
next
  case LoopTimer
  with assms(1) have "loop_timer t = Inr t'" by (auto split: sum.splits)
  then show ?thesis
    using assms(2)
    by (cases rule: loop_timer_cases)
      (auto simp: set_sentStop_def sendStop_def split: option.splits ptr.splits if_splits)
qed (use assms in \<open>auto simp: tracker_start_def tracker_end_def tracker_shutdown_def
      split: if_splits option.splits ptr.splits list.splits\<close>)

lemma exec_shuttingDown:
  "exec t es = Inr (ls, t') \<Longrightarrow> shuttingDown t \<noteq> 0 \<Longrightarrow> shuttingDown t' \<noteq> 0"
proof (induction es arbitrary: t ls)
  case Nil
  then show ?case by simp
next
  case (Cons e es)
  from Cons.prems(1) obtain l t1 ls1 where "step t e = Inr (l, t1)" "exec t1 es = Inr (ls1, t')"
    by (auto split: sum.splits)
  with Cons.IH Cons.prems(2) step_shuttingDown show ?case by blast
qed

lemma exec_append_Inr:
  "exec t es = Inr (ls, t') \<Longrightarrow> exec t' es' = Inr (ls', t'') \<Longrightarrow>
     exec t (es @ es') = Inr (ls @ ls', t'')"
  by (simp add: exec_append)

text \<open>
  C1, as the code has it. Once the loop has taken a \<open>shutdown\<close> command from the channel
  and set \<open>shuttingDown\<close>, every later call of \<open>start\<close>, after any further events,
  returns the reason passed to the most recent \<open>shutdown\<close> call when that reason is not
  nil, and leaves the tracker as it was: no command is sent, the count is not touched.
\<close>

theorem start_rejected_after_flag:
  assumes "exec (startRequestTracker w) es = Inr (ls, t)"
    and "shuttingDown t \<noteq> 0"
    and "exec t es' = Inr (ls', t')"
    and "last_reason (es @ es') = Some (Some m)"
  shows "tracker_start t' = Inr (Some m, t')"
proof -
  have run: "exec (startRequestTracker w) (es @ es') = Inr (ls @ ls', t')"
    using assms(1,3) by (rule exec_append_Inr)
  have "shuttingDown t' \<noteq> 0"
    using assms(3,2) by (rule exec_shuttingDown)
  moreover have "shutdownReason t' = Some (Ptr (Some m))"
    using tracker_invD(1)[OF tracker_inv_exec[OF run]] assms(4) by simp
  ultimately show ?thesis by (simp add: tracker_start_def)
qed

theorem start_rejected_after_flag_witness:
  "\<exists>ls t ls' t'.
     exec (startRequestTracker 30) [CallStart, LoopCommand, CallShutdown (Some ''Stop''), LoopCommand]
       = Inr (ls, t) \<and>
     shuttingDown t \<noteq> 0 \<and>
     exec t [CallShutdown (Some ''Again''), Tick 5, CallEnd] = Inr (ls', t') \<and>
     last_reason ([CallStart, LoopCommand, CallShutdown (Some ''Stop''), LoopCommand] @
        [CallShutdown (Some ''Again''), Tick 5, CallEnd]) = Some (Some ''Again'') \<and>
     tracker_start t' = Inr (Some ''Again'', t')"
proof -
  let ?es = "[CallStart, LoopCommand, CallShutdown (Some ''Stop''), LoopCommand]"
  let ?es' = "[CallShutdown (Some ''Again''), Tick 5, CallEnd]"
  let ?t = "\<lparr>C = [], shutdownWait = 30, shuttingDown = 1,
      shutdownReason = Some (Ptr (Some ''Stop'')), commandChan = [],
      activeRequests = 1, stopping = True, sentStop = False, graceTimer = Some 30, now = 0\<rparr>"
  let ?t' = "\<lparr>C = [], shutdownWait = 30, shuttingDown = 1,
      shutdownReason = Some (Ptr (Some ''Again'')), commandChan = [shutdown, endRequest],
      activeRequests = 1, stopping = True, sentStop = False, graceTimer = Some 30, now = 5\<rparr>"
  have run: "exec (startRequestTracker 30) ?es = Inr ([Returned None, Silent, Silent, Silent], ?t)"
    by (simp add: startRequestTracker_def tracker_start_def tracker_shutdown_def
        loop_command_def loop_label_def)
  have flag: "shuttingDown ?t \<noteq> 0" by simp
  have more: "exec ?t ?es' = Inr ([Silent, Silent, Silent], ?t')"
    by (simp add: tracker_end_def tracker_shutdown_def)
  have last: "last_reason (?es @ ?es') = Some (Some ''Again'')"
    by (simp add: last_reason_def)
  show ?thesis
    using run flag more last start_rejected_after_flag[OF run flag more last]
    by (intro exI[where x = "[Returned None, Silent, Silent, Silent]"] exI[where x = ?t]
        exI[where x = "[Silent, Silent, Silent]"] exI[where x = ?t'] conjI)
qed

text \<open>
  C1 as the specification words it fails twice. A \<open>start\<close> that follows a
  \<open>shutdown\<close> call before the loop has taken the command is admitted; and after a
  \<open>shutdown\<close> with a nil reason a \<open>start\<close> returns nil, not a generic cause.
\<close>

theorem start_after_shutdown_counterexample:
  "exec (startRequestTracker 30) [CallShutdown (Some ''X''), CallStart] =
     Inr ([Silent, Returned None],
       \<lparr>C = [], shutdownWait = 30, shuttingDown = 0,
        shutdownReason = Some (Ptr (Some ''X'')), commandChan = [shutdown, startRequest],
        activeRequests = 0, stopping = False, sentStop = False, graceTimer = None, now = 0\<rparr>) \<and>
   exec (startRequestTracker 30) [CallStart, LoopCommand, CallShutdown None, LoopCommand, CallStart] =
     Inr ([Returned None, Silent, Silent, Silent, Returned None],
       \<lparr>C = [], shutdownWait = 30, shuttingDown = 1,
        shutdownReason = Some (Ptr None), commandChan = [],
        activeRequests = 1, stopping = True, sentStop = False, graceTimer = Some 30, now = 0\<rparr>)"
  by (simp add: startRequestTracker_def tracker_start_def tracker_shutdown_def
      loop_command_def loop_label_def)

text \<open>
  C5, as the code has it. Every call of \<open>shutdown\<close> overwrites the stored reason, so at
  any point of any run the stored reason is the one of the most recent call. What the
  next step hands out is that reason: a value the loop sends on \<open>C\<close> and a non-nil error
  that \<open>start\<close> returns are the reason of the last \<open>shutdown\<close> call made so far, and a
  value received from \<open>C\<close> is the one value that was sent.
\<close>

theorem latest_reason_is_stored_and_handed_out:
  assumes "exec (startRequestTracker w) es = Inr (ls, t)" and "step t e = Inr (l, t')"
  shows "shutdownReason t = map_option Ptr (last_reason es) \<and>
         (\<forall>r. l = Sent r \<longrightarrow> last_reason es = Some r) \<and>
         (\<forall>m. l = Returned (Some m) \<longrightarrow> last_reason es = Some (Some m)) \<and>
         (\<forall>r. l = Received r \<longrightarrow> sent_values ls = [r])"
proof -
  from assms(1) have inv: "tracker_inv es ls t" by (rule tracker_inv_exec)
  note reason = tracker_invD(1)[OF inv]
  have sent: "last_reason es = Some r" if "l = Sent r" for r
  proof -
    have fired: "last_reason es = Some r"
      if "set_sentStop t1 = Inr t'" "shutdownReason t1 = shutdownReason t" "C t1 = C t"
        "\<not> sentStop t1" for t1
    proof -
      from set_sentStop_cases[OF that(1,4)] that(2,3) \<open>l = Sent r\<close> assms(2) reason
      show ?thesis
        by (cases e) (auto simp: loop_label_def split: sum.splits if_splits)
    qed
    show ?thesis
    proof (cases e)
      case LoopCommand
      with assms(2) that have lc: "loop_command t = Inr t'" and lab: "loop_label t t' = Sent r"
        by (auto split: sum.splits)
      from lc have run: "\<not> sentStop t" by (rule loop_command_running)
      from lc show ?thesis
        using lab run
        by (cases rule: loop_command_cases) (auto simp: loop_label_def intro: fired)
    next
      case LoopTimer
      with assms(2) have lt: "loop_timer t = Inr t'" by (auto split: sum.splits)
      then show ?thesis
        by (cases rule: loop_timer_cases) (auto intro: fired)
    qed (use assms(2) that in \<open>auto simp: tracker_start_def split: if_splits option.splits
          ptr.splits list.splits\<close>)
  qed
  have ret: "last_reason es = Some (Some m)" if "l = Returned (Some m)" for m
    using that assms(2) reason
    by (cases e)
      (auto simp: tracker_start_def loop_label_def split: if_splits option.splits ptr.splits
        list.splits sum.splits)
  have rcv: "sent_values ls = [r]" if "l = Received r" for r
  proof -
    from that assms(2) obtain rest where c: "C t = r # rest"
      by (cases e) (auto simp: tracker_start_def loop_label_def split: if_splits option.splits
          ptr.splits list.splits sum.splits)
    with tracker_invD(9,10)[OF inv] show ?thesis
      by (cases "sentStop t") auto
  qed
  from reason sent ret rcv show ?thesis by blast
qed

theorem latest_reason_is_stored_and_handed_out_witness:
  "\<exists>ls t t'.
     exec (startRequestTracker 30)
       [CallStart, LoopCommand, CallShutdown (Some ''A''), LoopCommand,
        CallShutdown (Some ''B''), CallEnd, LoopCommand] = Inr (ls, t) \<and>
     step t LoopCommand = Inr (Sent (Some ''B''), t') \<and>
     shutdownReason t = map_option Ptr (last_reason
       [CallStart, LoopCommand, CallShutdown (Some ''A''), LoopCommand,
        CallShutdown (Some ''B''), CallEnd, LoopCommand]) \<and>
     last_reason [CallStart, LoopCommand, CallShutdown (Some ''A''), LoopCommand,
        CallShutdown (Some ''B''), CallEnd, LoopCommand] = Some (Some ''B'')"
proof -
  let ?es = "[CallStart, LoopCommand, CallShutdown (Some ''A''), LoopCommand,
        CallShutdown (Some ''B''), CallEnd, LoopCommand]"
  let ?ls = "[Returned None, Silent, Silent, Silent, Silent, Silent, Silent]"
  let ?t = "\<lparr>C = [], shutdownWait = 30, shuttingDown = 1,
      shutdownReason = Some (Ptr (Some ''B'')), commandChan = [endRequest],
      activeRequests = 1, stopping = True, sentStop = False, graceTimer = Some 30, now = 0\<rparr>"
  let ?t' = "\<lparr>C = [Some ''B''], shutdownWait = 30, shuttingDown = 1,
      shutdownReason = Some (Ptr (Some ''B'')), commandChan = [],
      activeRequests = 0, stopping = True, sentStop = True, graceTimer = Some 30, now = 0\<rparr>"
  have run: "exec (startRequestTracker 30) ?es = Inr (?ls, ?t)"
    by (simp add: startRequestTracker_def tracker_start_def tracker_end_def tracker_shutdown_def
        loop_command_def loop_label_def)
  have st: "step ?t LoopCommand = Inr (Sent (Some ''B''), ?t')"
    by (simp add: loop_command_def loop_label_def set_sentStop_def sendStop_def)
  note th = latest_reason_is_stored_and_handed_out[OF run st]
  have "last_reason ?es = Some (Some ''B'')"
    using th[THEN conjunct2, THEN conjunct1] by simp
  with run st th[THEN conjunct1] show ?thesis
    by (intro exI[where x = ?ls] exI[where x = ?t] exI[where x = ?t'] conjI)
qed

text \<open>
  C5 as the specification words it, that only the first call's reason is stored and
  honoured, fails: after \<open>shutdown(A)\<close> and \<open>shutdown(B)\<close> the stored reason is
  \<open>B\<close>, a rejected \<open>start\<close> gets \<open>B\<close>, and \<open>B\<close> is what the loop sends on \<open>C\<close> and the
  receiver gets.
\<close>

theorem first_reason_wins_counterexample:
  "exec (startRequestTracker 30)
     [CallStart, LoopCommand, CallShutdown (Some ''A''), LoopCommand,
      CallShutdown (Some ''B''), CallStart, CallEnd, LoopCommand, LoopCommand, Receive] =
   Inr ([Returned None, Silent, Silent, Silent, Silent, Returned (Some ''B''), Silent, Silent,
         Sent (Some ''B''), Received (Some ''B'')],
     \<lparr>C = [], shutdownWait = 30, shuttingDown = 1,
      shutdownReason = Some (Ptr (Some ''B'')), commandChan = [],
      activeRequests = 0, stopping = True, sentStop = True, graceTimer = Some 30, now = 0\<rparr>)"
  by (simp add: startRequestTracker_def tracker_start_def tracker_end_def tracker_shutdown_def
      loop_command_def loop_label_def set_sentStop_def sendStop_def)

section \<open>The loop in reachable states\<close>

text \<open>
  In a state that a run reaches, the loop neither panics nor blocks in \<open>sendStop\<close>: a
  reason is stored whenever the loop can get there, and \<open>C\<close> is empty until the loop has
  sent. So each iteration is one of the following.
\<close>

lemma set_sentStop_reachable:
  assumes "tracker_inv es ls t" and "\<not> sentStop t"
    and "stopping t \<or> shutdown \<in> set (commandChan t)"
    and "shutdownReason t1 = shutdownReason t" and "C t1 = C t" and "\<not> sentStop t1"
  shows "\<exists>r. last_reason es = Some r \<and>
           set_sentStop t1 = Inr (t1\<lparr>C := [r], sentStop := True\<rparr>) \<and> C t = []"
proof -
  from assms(3) tracker_invD(2,4)[OF assms(1)] obtain r where r: "last_reason es = Some r"
    by auto
  with tracker_invD(1)[OF assms(1)] have "shutdownReason t = Some (Ptr r)" by simp
  moreover from assms(2) tracker_invD(9,10)[OF assms(1)] have c: "C t = []" by simp
  ultimately have "set_sentStop t1 = Inr (t1\<lparr>C := [r], sentStop := True\<rparr>)"
    using assms(4,5,6) by (intro set_sentStop_fires) simp_all
  with r c show ?thesis by blast
qed

lemma loop_command_reachable_cases:
  assumes "tracker_inv es ls t" and "loop_command t = Inr t'"
  obtains
    (start) rest where "commandChan t = startRequest # rest"
      "t' = t\<lparr>commandChan := rest, activeRequests := activeRequests t + 1\<rparr>"
      "loop_label t t' = Silent"
  | (end_on) rest where "commandChan t = endRequest # rest"
      "\<not> (stopping t \<and> activeRequests t - 1 = 0)"
      "t' = t\<lparr>commandChan := rest, activeRequests := activeRequests t - 1\<rparr>"
      "loop_label t t' = Silent"
  | (end_stop) rest r where "commandChan t = endRequest # rest"
      "stopping t" "activeRequests t - 1 = 0" "last_reason es = Some r" "C t = []"
      "t' = t\<lparr>commandChan := rest, activeRequests := activeRequests t - 1,
              C := [r], sentStop := True\<rparr>"
      "loop_label t t' = Sent r"
  | (shutdown_stop) rest r where "commandChan t = shutdown # rest"
      "sint (activeRequests t) \<le> 0" "last_reason es = Some r" "C t = []"
      "t' = t\<lparr>commandChan := rest, stopping := True, shuttingDown := 1,
              C := [r], sentStop := True\<rparr>"
      "loop_label t t' = Sent r"
  | (shutdown_arm) rest where "commandChan t = shutdown # rest"
      "0 < sint (activeRequests t)"
      "t' = t\<lparr>commandChan := rest, stopping := True, shuttingDown := 1,
              graceTimer := Some (now t + shutdownWait t)\<rparr>"
      "loop_label t t' = Silent"
proof -
  from assms(2) have run: "\<not> sentStop t" by (rule loop_command_running)
  from assms(2) show thesis
  proof (cases rule: loop_command_cases)
    case (start rest)
    then show ?thesis by (intro that(1)[of rest]) (simp_all add: loop_label_def)
  next
    case (end_on rest)
    then show ?thesis by (intro that(2)[of rest]) (simp_all add: loop_label_def)
  next
    case (end_stop rest)
    let ?t1 = "t\<lparr>commandChan := rest, activeRequests := activeRequests t - 1\<rparr>"
    have "\<exists>r. last_reason es = Some r \<and>
          set_sentStop ?t1 = Inr (?t1\<lparr>C := [r], sentStop := True\<rparr>) \<and> C t = []"
      using end_stop(2) run by (intro set_sentStop_reachable[OF assms(1)]) simp_all
    then obtain r where r: "last_reason es = Some r"
      "set_sentStop ?t1 = Inr (?t1\<lparr>C := [r], sentStop := True\<rparr>)" "C t = []"
      by auto
    from r(2) end_stop(4) have "t' = ?t1\<lparr>C := [r], sentStop := True\<rparr>" by simp
    with end_stop(1-3) r(1,3) show ?thesis
      by (intro that(3)[of rest r]) (simp_all add: loop_label_def)
  next
    case (shutdown_stop rest)
    let ?t1 = "t\<lparr>commandChan := rest, stopping := True, shuttingDown := 1\<rparr>"
    have "\<exists>r. last_reason es = Some r \<and>
          set_sentStop ?t1 = Inr (?t1\<lparr>C := [r], sentStop := True\<rparr>) \<and> C t = []"
      using shutdown_stop(1) run by (intro set_sentStop_reachable[OF assms(1)]) simp_all
    then obtain r where r: "last_reason es = Some r"
      "set_sentStop ?t1 = Inr (?t1\<lparr>C := [r], sentStop := True\<rparr>)" "C t = []"
      by auto
    from r(2) shutdown_stop(3) have "t' = ?t1\<lparr>C := [r], sentStop := True\<rparr>" by simp
    with shutdown_stop(1,2) r(1,3) show ?thesis
      by (intro that(4)[of rest r]) (simp_all add: loop_label_def)
  next
    case (shutdown_arm rest)
    then show ?thesis by (intro that(5)[of rest]) (simp_all add: loop_label_def)
  qed
qed

lemma loop_timer_reachable:
  assumes "tracker_inv es ls t" and "loop_timer t = Inr t'"
  obtains d r where "graceTimer t = Some d" "d \<le> now t" "\<not> sentStop t" "stopping t"
    "last_reason es = Some r" "C t = []"
    "t' = t\<lparr>graceTimer := None, C := [r], sentStop := True\<rparr>"
    "loop_label t t' = Sent r"
proof -
  from assms(2) obtain d where d: "graceTimer t = Some d" "d \<le> now t" "\<not> sentStop t"
    "set_sentStop (t\<lparr>graceTimer := None\<rparr>) = Inr t'"
    by (rule loop_timer_cases)
  from d(1) tracker_invD(7)[OF assms(1)] have st: "stopping t" by simp
  let ?t1 = "t\<lparr>graceTimer := None\<rparr>"
  have "\<exists>r. last_reason es = Some r \<and>
      set_sentStop ?t1 = Inr (?t1\<lparr>C := [r], sentStop := True\<rparr>) \<and> C t = []"
    using d(3) st by (intro set_sentStop_reachable[OF assms(1)]) simp_all
  then obtain r where r: "last_reason es = Some r"
    "set_sentStop ?t1 = Inr (?t1\<lparr>C := [r], sentStop := True\<rparr>)" "C t = []"
    by auto
  from r(2) d(4) have "t' = ?t1\<lparr>C := [r], sentStop := True\<rparr>" by simp
  with d(1-3) st r(1,3) show thesis
    by (intro that[of d r]) (simp_all add: loop_label_def)
qed



section \<open>The 64-bit counter\<close>

lemma sint_succ_64:
  fixes a :: "64 word"
  assumes "sint a < 2 ^ 63 - 1"
  shows "sint (a + 1) = sint a + 1"
proof -
  have "- (2 ^ 63) \<le> sint a" using sint_ge[of a] by simp
  with assms show ?thesis
    by (simp add: sint_word_ariths signed_take_bit_int_eq_self)
qed

lemma sint_pred_64:
  fixes a :: "64 word"
  assumes "- (2 ^ 63) < sint a"
  shows "sint (a - 1) = sint a - 1"
proof -
  have "sint a < 2 ^ 63" using sint_lt[of a] by simp
  with assms show ?thesis
    by (simp add: sint_word_ariths signed_take_bit_int_eq_self)
qed

lemma sint_eq_0_64: "sint (a :: 64 word) = 0 \<longleftrightarrow> a = 0"
  by (simp add: signed_eq_0_iff)

lemma count_invD:
  assumes "count_inv es t"
  shows "- int (length es) \<le> sint (activeRequests t)"
    and "sint (activeRequests t) \<le> int (length es)"
    and "stopping t \<Longrightarrow> \<not> sentStop t \<Longrightarrow> 0 < sint (activeRequests t)"
  using assms unfolding count_inv_def by blast+

lemma count_inv_same:
  assumes "count_inv es t" and "activeRequests t' = activeRequests t"
    and "stopping t' = stopping t" and "sentStop t' = sentStop t"
  shows "count_inv (es @ [e]) t'"
  using assms by (simp add: count_inv_def)

lemma count_inv_step:
  assumes inv: "tracker_inv es ls t" and cnt: "count_inv es t"
    and st: "step t e = Inr (l, t')" and len: "length es < 2 ^ 63 - 1"
  shows "count_inv (es @ [e]) t'"
proof -
  from len have n: "int (length es) < 2 ^ 63 - 1"
    by simp
  note c = count_invD[OF cnt]
  have up: "sint (activeRequests t + 1) = sint (activeRequests t) + 1"
    using c(2) n by (intro sint_succ_64) linarith
  have down: "sint (activeRequests t - 1) = sint (activeRequests t) - 1"
    using c(1) n by (intro sint_pred_64) linarith
  show ?thesis
  proof (cases e)
    case CallStart
    with st have "activeRequests t' = activeRequests t \<and> stopping t' = stopping t \<and>
        sentStop t' = sentStop t"
      by (auto simp: tracker_start_def split: if_splits option.splits ptr.splits)
    then show ?thesis by (intro count_inv_same[OF cnt]) simp_all
  next
    case CallEnd
    with st show ?thesis by (intro count_inv_same[OF cnt]) (auto simp: tracker_end_def)
  next
    case (CallShutdown r)
    with st show ?thesis by (intro count_inv_same[OF cnt]) (auto simp: tracker_shutdown_def)
  next
    case (Tick d)
    with st show ?thesis by (intro count_inv_same[OF cnt]) auto
  next
    case Receive
    with st show ?thesis by (intro count_inv_same[OF cnt]) (auto split: list.splits)
  next
    case LoopTimer
    with st have "loop_timer t = Inr t'" by (auto split: sum.splits)
    with inv show ?thesis
    proof (cases rule: loop_timer_reachable)
      case (1 d r)
      from cnt 1(7) show ?thesis by (simp add: count_inv_def)
    qed
  next
    case LoopCommand
    with st have "loop_command t = Inr t'" by (auto split: sum.splits)
    with inv show ?thesis
    proof (cases rule: loop_command_reachable_cases)
      case (start rest)
      from cnt up start(2) show ?thesis by (auto simp: count_inv_def)
    next
      case (end_on rest)
      have "sint (activeRequests t - 1) \<noteq> 0" if "stopping t"
        using that end_on(2) by (simp add: sint_eq_0_64)
      with end_on(3) cnt down show ?thesis by (auto simp: count_inv_def)
    next
      case (end_stop rest r)
      from cnt down end_stop(6) show ?thesis by (simp add: count_inv_def)
    next
      case (shutdown_stop rest r)
      from cnt shutdown_stop(5) show ?thesis by (simp add: count_inv_def)
    next
      case (shutdown_arm rest)
      from cnt shutdown_arm(2,3) show ?thesis by (simp add: count_inv_def)
    qed
  qed
qed

lemma count_inv_exec:
  assumes "exec (startRequestTracker w) es = Inr (ls, t)"
  shows "length es < 2 ^ 63 \<longrightarrow> count_inv es t"
  using assms
proof (induction rule: exec_induct)
  case init
  then show ?case by (simp add: count_inv_def startRequestTracker_def)
next
  case (step es ls t e l t')
  show ?case
  proof
    assume "length (es @ [e]) < 2 ^ 63"
    then have len: "length es < 2 ^ 63 - 1" by simp
    then have "length es < 2 ^ 63" by simp
    with step.IH have "count_inv es t" by simp
    with tracker_inv_exec[OF step.hyps(1)] show "count_inv (es @ [e]) t'"
      using step.hyps(2) len by (rule count_inv_step)
  qed
qed

section \<open>The state machine\<close>




section \<open>Runs without shutdown\<close>

lemma returned_values_append:
  "returned_values (ls @ ls') = returned_values ls @ returned_values ls'"
  by (induction ls rule: returned_values.induct) auto

lemma pending_append: "pending (q @ q') = pending q + pending q'"
  by (induction q rule: pending.induct) auto

lemma count_list_snoc: "count_list (xs @ [x]) y = count_list xs y + (if x = y then 1 else 0)"
  by (induction xs) auto

text \<open>While no \<open>shutdown\<close> was called the loop is in its initial mode.\<close>

lemma no_shutdown_mode:
  assumes "tracker_inv es ls t" and "last_reason es = None"
  shows "\<not> stopping t" and "\<not> sentStop t" and "shuttingDown t = 0"
    and "shutdown \<notin> set (commandChan t)" and "graceTimer t = None"
proof -
  from assms tracker_invD(4)[OF assms(1)] show s: "\<not> stopping t" by auto
  with tracker_invD(6)[OF assms(1)] show "\<not> sentStop t" by auto
  from s tracker_invD(5)[OF assms(1)] show "shuttingDown t = 0" by simp
  from assms(2) tracker_invD(2)[OF assms(1)] show "shutdown \<notin> set (commandChan t)" by auto
  from s tracker_invD(7)[OF assms(1)] show "graceTimer t = None"
    by (cases "graceTimer t") auto
qed

lemma balance_inv_step:
  assumes inv: "tracker_inv es ls t" and bal: "balance_inv es ls t"
    and st: "step t e = Inr (l, t')" and none: "last_reason (es @ [e]) = None"
  shows "balance_inv (es @ [e]) (ls @ [l]) t'"
proof -
  from none have n: "last_reason es = None" and e: "\<forall>r. e \<noteq> CallShutdown r"
    by (auto simp: last_reason_snoc split: event.splits)
  note mode = no_shutdown_mode[OF inv n]
  from bal have b1: "activeRequests t + pending (commandChan t) =
       of_nat (count_list es CallStart) - of_nat (count_list es CallEnd)"
    and b2: "returned_values ls = replicate (count_list es CallStart) None"
    by (simp_all add: balance_inv_def)
  show ?thesis
  proof (cases e)
    case CallStart
    with st mode(3) have "l = Returned None"
      and "t' = t\<lparr>commandChan := commandChan t @ [startRequest]\<rparr>"
      by (auto simp: tracker_start_def)
    with b1 b2 CallStart show ?thesis
      by (simp add: balance_inv_def pending_append count_list_snoc returned_values_append
          replicate_append_same)
  next
    case CallEnd
    with st have "l = Silent" and "t' = t\<lparr>commandChan := commandChan t @ [endRequest]\<rparr>"
      by (auto simp: tracker_end_def)
    with b1 b2 CallEnd show ?thesis
      by (simp add: balance_inv_def pending_append count_list_snoc returned_values_append)
  next
    case (CallShutdown r)
    with e show ?thesis by simp
  next
    case (Tick d)
    with st have "l = Silent" and "t' = t\<lparr>now := now t + int d\<rparr>" by auto
    with b1 b2 Tick show ?thesis
      by (simp add: balance_inv_def count_list_snoc returned_values_append)
  next
    case Receive
    with st obtain r rest where "l = Received r" and "t' = t\<lparr>C := rest\<rparr>"
      by (auto split: list.splits)
    with b1 b2 Receive show ?thesis
      by (simp add: balance_inv_def count_list_snoc returned_values_append)
  next
    case LoopTimer
    with st mode(5) show ?thesis by (simp add: loop_timer_def mode(2))
  next
    case LoopCommand
    with st have lc: "loop_command t = Inr t'" and l: "l = loop_label t t'"
      by (auto split: sum.splits)
    from inv lc show ?thesis
    proof (cases rule: loop_command_reachable_cases)
      case (start rest)
      have "activeRequests t' + pending (commandChan t') =
          activeRequests t + pending (commandChan t)"
        using start(1,2) by (simp add: algebra_simps)
      moreover have "l = Silent" using l start(3) by simp
      ultimately show ?thesis
        using b1 b2 LoopCommand
        by (simp add: balance_inv_def count_list_snoc returned_values_append)
    next
      case (end_on rest)
      have "activeRequests t' + pending (commandChan t') =
          activeRequests t + pending (commandChan t)"
        using end_on(1,3) by (simp add: algebra_simps)
      moreover have "l = Silent" using l end_on(4) by simp
      ultimately show ?thesis
        using b1 b2 LoopCommand
        by (simp add: balance_inv_def count_list_snoc returned_values_append)
    next
      case (end_stop rest r)
      with mode(1) show ?thesis by simp
    next
      case (shutdown_stop rest r)
      with mode(4) show ?thesis by simp
    next
      case (shutdown_arm rest)
      with mode(4) show ?thesis by simp
    qed
  qed
qed

lemma balance_inv_exec:
  assumes "exec (startRequestTracker w) es = Inr (ls, t)"
  shows "last_reason es = None \<longrightarrow> balance_inv es ls t"
  using assms
proof (induction rule: exec_induct)
  case init
  then show ?case by (simp add: balance_inv_def startRequestTracker_def)
next
  case (step es ls t e l t')
  show ?case
  proof
    assume none: "last_reason (es @ [e]) = None"
    then have "last_reason es = None"
      by (auto simp: last_reason_snoc split: event.splits)
    with step.IH have "balance_inv es ls t" by simp
    with tracker_inv_exec[OF step.hyps(1)] show "balance_inv (es @ [e]) (ls @ [l]) t'"
      using step.hyps(2) none by (rule balance_inv_step)
  qed
qed

text \<open>With no \<open>shutdown\<close> command waiting, the loop works through the whole channel.\<close>

lemma loop_drains_channel:
  assumes "\<not> sentStop t" and "\<not> stopping t" and "shutdown \<notin> set (commandChan t)"
  shows "exec t (replicate (length (commandChan t)) LoopCommand) =
     Inr (replicate (length (commandChan t)) Silent,
          t\<lparr>commandChan := [], activeRequests := activeRequests t + pending (commandChan t)\<rparr>)"
  using assms
proof (induction "commandChan t" arbitrary: t)
  case Nil
  then show ?case by simp
next
  case (Cons c rest)
  note q = Cons.hyps(2)[symmetric]
  show ?case
  proof (cases c)
    case startRequest
    let ?t1 = "t\<lparr>commandChan := rest, activeRequests := activeRequests t + 1\<rparr>"
    have st: "step t LoopCommand = Inr (Silent, ?t1)"
      using q startRequest Cons.prems by (simp add: loop_command_def loop_label_def)
    have "exec ?t1 (replicate (length (commandChan ?t1)) LoopCommand) =
      Inr (replicate (length (commandChan ?t1)) Silent,
          ?t1\<lparr>commandChan := [], activeRequests := activeRequests ?t1 + pending (commandChan ?t1)\<rparr>)"
      using Cons.prems q by (intro Cons.hyps(1)) simp_all
    with st q startRequest show ?thesis by (simp add: add.commute add.left_commute)
  next
    case endRequest
    let ?t1 = "t\<lparr>commandChan := rest, activeRequests := activeRequests t - 1\<rparr>"
    have st: "step t LoopCommand = Inr (Silent, ?t1)"
      using q endRequest Cons.prems by (simp add: loop_command_def loop_label_def)
    have "exec ?t1 (replicate (length (commandChan ?t1)) LoopCommand) =
      Inr (replicate (length (commandChan ?t1)) Silent,
          ?t1\<lparr>commandChan := [], activeRequests := activeRequests ?t1 + pending (commandChan ?t1)\<rparr>)"
      using Cons.prems q by (intro Cons.hyps(1)) simp_all
    with st q endRequest show ?thesis by (simp add: algebra_simps)
  next
    case shutdown
    with q Cons.prems(3) show ?thesis by simp
  qed
qed

text \<open>
  C7. In a run without any \<open>shutdown\<close> call every \<open>start\<close> returns nil, and the counter
  together with what the waiting commands will add to it is the number of \<open>start\<close> calls
  minus the number of \<open>end\<close> calls. So when \<open>n\<close> starts have been matched by \<open>n\<close> ends,
  the loop, working through the channel, arrives at the count 0 it began with; and if the
  channel is already empty the count is 0.
\<close>

theorem balanced_calls_return_to_zero:
  assumes "exec (startRequestTracker w) es = Inr (ls, t)" and "\<forall>r. CallShutdown r \<notin> set es"
  shows "returned_values ls = replicate (count_list es CallStart) None \<and>
    activeRequests t + pending (commandChan t) =
       of_nat (count_list es CallStart) - of_nat (count_list es CallEnd) \<and>
    (count_list es CallStart = count_list es CallEnd \<longrightarrow>
       (commandChan t = [] \<longrightarrow> activeRequests t = 0) \<and>
       (\<exists>ls' t'. exec t (replicate (length (commandChan t)) LoopCommand) = Inr (ls', t') \<and>
          commandChan t' = [] \<and> activeRequests t' = 0))"
proof -
  from assms(2) have none: "last_reason es = None" by (simp add: last_reason_None)
  from assms(1) have inv: "tracker_inv es ls t" by (rule tracker_inv_exec)
  from balance_inv_exec[OF assms(1)] none have "balance_inv es ls t" by simp
  then have b1: "activeRequests t + pending (commandChan t) =
       of_nat (count_list es CallStart) - of_nat (count_list es CallEnd)"
    and b2: "returned_values ls = replicate (count_list es CallStart) None"
    by (simp_all add: balance_inv_def)
  note mode = no_shutdown_mode[OF inv none]
  note drain = loop_drains_channel[OF mode(2) mode(1) mode(4)]
  have zero: "(commandChan t = [] \<longrightarrow> activeRequests t = 0) \<and>
       (\<exists>ls' t'. exec t (replicate (length (commandChan t)) LoopCommand) = Inr (ls', t') \<and>
          commandChan t' = [] \<and> activeRequests t' = 0)"
    if "count_list es CallStart = count_list es CallEnd"
  proof -
    from b1 that have z: "activeRequests t + pending (commandChan t) = 0" by simp
    then have "commandChan t = [] \<longrightarrow> activeRequests t = 0" by auto
    moreover from drain z
    have "exec t (replicate (length (commandChan t)) LoopCommand) =
        Inr (replicate (length (commandChan t)) Silent, t\<lparr>commandChan := [], activeRequests := 0\<rparr>)"
      by simp
    then have "\<exists>ls' t'. exec t (replicate (length (commandChan t)) LoopCommand) = Inr (ls', t') \<and>
          commandChan t' = [] \<and> activeRequests t' = 0"
      by simp
    ultimately show ?thesis by blast
  qed
  from b1 b2 zero show ?thesis by blast
qed

theorem balanced_calls_return_to_zero_witness:
  "\<exists>ls t. exec (startRequestTracker 30)
       [CallStart, CallStart, LoopCommand, CallEnd, CallStart, CallEnd, CallEnd] = Inr (ls, t) \<and>
     list_all (\<lambda>e. e = CallStart \<or> e = CallEnd \<or> e = LoopCommand)
       [CallStart, CallStart, LoopCommand, CallEnd, CallStart, CallEnd, CallEnd] \<and>
     count_list [CallStart, CallStart, LoopCommand, CallEnd, CallStart, CallEnd, CallEnd] CallStart = 3 \<and>
     count_list [CallStart, CallStart, LoopCommand, CallEnd, CallStart, CallEnd, CallEnd] CallEnd = 3 \<and>
     returned_values ls = [None, None, None] \<and>
     activeRequests t = 1 \<and> length (commandChan t) = 5 \<and>
     (\<exists>ls' t'. exec t (replicate (length (commandChan t)) LoopCommand) = Inr (ls', t') \<and>
          commandChan t' = [] \<and> activeRequests t' = 0)"
proof -
  let ?es = "[CallStart, CallStart, LoopCommand, CallEnd, CallStart, CallEnd, CallEnd]"
  let ?ls = "[Returned None, Returned None, Silent, Silent, Returned None, Silent, Silent]"
  let ?t = "\<lparr>C = [], shutdownWait = 30, shuttingDown = 0, shutdownReason = None,
      commandChan = [startRequest, endRequest, startRequest, endRequest, endRequest],
      activeRequests = 1, stopping = False, sentStop = False, graceTimer = None, now = 0\<rparr>"
  have run: "exec (startRequestTracker 30) ?es = Inr (?ls, ?t)"
    by (simp add: startRequestTracker_def tracker_start_def tracker_end_def
        loop_command_def loop_label_def)
  have no: "\<forall>r. CallShutdown r \<notin> set ?es" by simp
  have shape: "list_all (\<lambda>e. e = CallStart \<or> e = CallEnd \<or> e = LoopCommand) ?es" by simp
  have s: "count_list ?es CallStart = 3" and e: "count_list ?es CallEnd = 3" by simp_all
  note th = balanced_calls_return_to_zero[OF run no]
  have ret: "returned_values ?ls = [None, None, None]" by simp
  have eq: "count_list ?es CallStart = count_list ?es CallEnd" by simp
  note zero = th[THEN conjunct2, THEN conjunct2, THEN mp, OF eq, THEN conjunct2]
  have a: "activeRequests ?t = 1" and q: "length (commandChan ?t) = 5" by simp_all
  show ?thesis
    apply (rule exI[where x = ?ls])
    apply (rule exI[where x = ?t])
    using run shape s e ret a q zero
    by (intro conjI)
qed

section \<open>The counter under paired callers\<close>

lemma exec_length: "exec t es = Inr (ls, t') \<Longrightarrow> length ls = length es"
  by (induction es arbitrary: t ls) (auto split: sum.splits)

lemma inflight_Nil: "inflight [] [] = Some 0"
  by (simp add: inflight_def)

lemma inflight_snoc:
  "length es = length ls \<Longrightarrow> inflight (es @ [e]) (ls @ [l]) = pairing (inflight es ls) (e, l)"
  by (simp add: inflight_def)

lemma pairing_Some:
  assumes "pairing m (e, l) = Some n'"
  obtains n where "m = Some n"
  using assms by (cases m) auto

lemma covered_append:
  "covered a (q @ [c]) \<longleftrightarrow> covered a q \<and> 0 \<le> a + sum_list (map delta q) + delta c"
  by (induction q arbitrary: a) (auto simp: add.assoc)

lemma covered_nonneg: "covered a q \<Longrightarrow> 0 \<le> a"
  by (cases q) auto

lemma counter_exact:
  assumes "count_inv es t" and "length es < 2 ^ 63 - 1"
  shows "sint (activeRequests t + 1) = sint (activeRequests t) + 1"
    and "sint (activeRequests t - 1) = sint (activeRequests t) - 1"
proof -
  from assms(2) have n: "int (length es) < 2 ^ 63 - 1" by simp
  note c = count_invD[OF assms(1)]
  show "sint (activeRequests t + 1) = sint (activeRequests t) + 1"
    using c(2) n by (intro sint_succ_64) linarith
  show "sint (activeRequests t - 1) = sint (activeRequests t) - 1"
    using c(1) n by (intro sint_pred_64) linarith
qed

lemma paired_inv_step:
  assumes inv: "tracker_inv es ls t" and cnt: "count_inv es t"
    and len: "length es < 2 ^ 63 - 1"
    and p: "paired_inv n t" and st: "step t e = Inr (l, t')"
    and n': "pairing (Some n) (e, l) = Some n'"
  shows "paired_inv n' t'"
proof -
  note exact = counter_exact[OF cnt len]
  from p have a0: "0 \<le> sint (activeRequests t)"
    and act: "\<not> stopping t \<Longrightarrow> covered (sint (activeRequests t)) (commandChan t)"
      "\<not> stopping t \<Longrightarrow> sint (activeRequests t) + sum_list (map delta (commandChan t)) = int n"
    by (simp_all add: paired_inv_def)
  show ?thesis
  proof (cases e)
    case CallStart
    show ?thesis
    proof (cases "stopping t")
      case True
      with tracker_invD(5)[OF inv] have "shuttingDown t \<noteq> 0" by simp
      with st CallStart have "t' = t"
        by (auto simp: tracker_start_def split: option.splits ptr.splits)
      with a0 True show ?thesis by (simp add: paired_inv_def)
    next
      case False
      with tracker_invD(5)[OF inv] have "shuttingDown t = 0" by simp
      with st CallStart have l: "l = Returned None"
        and t': "t' = t\<lparr>commandChan := commandChan t @ [startRequest]\<rparr>"
        by (auto simp: tracker_start_def)
      from n' CallStart l have "n' = Suc n" by simp
      with a0 act[OF False] False show ?thesis
        by (simp add: paired_inv_def t' covered_append)
    qed
  next
    case CallEnd
    with st have t': "t' = t\<lparr>commandChan := commandChan t @ [endRequest]\<rparr>"
      by (auto simp: tracker_end_def)
    from n' CallEnd have "0 < n" "n' = n - 1" by (auto split: if_splits)
    with a0 act show ?thesis
      by (auto simp: paired_inv_def t' covered_append)
  next
    case (CallShutdown r)
    with st have t': "t' = t\<lparr>shutdownReason := Some (Ptr r),
        commandChan := commandChan t @ [shutdown]\<rparr>"
      by (auto simp: tracker_shutdown_def)
    from n' CallShutdown have "n' = n" by simp
    with a0 act show ?thesis
      by (auto simp: paired_inv_def t' covered_append)
  next
    case (Tick d)
    with st have "l = Silent" and t': "t' = t\<lparr>now := now t + int d\<rparr>" by auto
    with n' Tick have "n' = n" by simp
    with p t' show ?thesis by (simp add: paired_inv_def)
  next
    case Receive
    with st obtain r rest where "l = Received r" and t': "t' = t\<lparr>C := rest\<rparr>"
      by (auto split: list.splits)
    with n' Receive have "n' = n" by simp
    with p t' show ?thesis by (simp add: paired_inv_def)
  next
    case LoopTimer
    with st have "loop_timer t = Inr t'" by (auto split: sum.splits)
    with inv show ?thesis
    proof (cases rule: loop_timer_reachable)
      case (1 d r)
      from n' LoopTimer have "n' = n" by (cases l) simp_all
      with a0 1(4,7) show ?thesis by (simp add: paired_inv_def)
    qed
  next
    case LoopCommand
    with st have lc: "loop_command t = Inr t'" by (auto split: sum.splits)
    from n' LoopCommand have nn: "n' = n" by (cases l) simp_all
    from lc have run: "\<not> sentStop t" by (rule loop_command_running)
    from inv lc show ?thesis
    proof (cases rule: loop_command_reachable_cases)
      case (start rest)
      from a0 exact(1) act start(1) show ?thesis
        by (auto simp: paired_inv_def start(2) nn)
    next
      case (end_on rest)
      have "0 \<le> sint (activeRequests t - 1)"
      proof (cases "stopping t")
        case True
        from count_invD(3)[OF cnt True run] exact(2) show ?thesis by simp
      next
        case False
        from act(1)[OF False] end_on(1) have "covered (sint (activeRequests t) - 1) rest"
          by simp
        from covered_nonneg[OF this] exact(2) show ?thesis by simp
      qed
      with exact(2) act end_on(1) show ?thesis
        by (auto simp: paired_inv_def end_on(3) nn)
    next
      case (end_stop rest r)
      then show ?thesis by (simp add: paired_inv_def)
    next
      case (shutdown_stop rest r)
      with a0 show ?thesis by (simp add: paired_inv_def)
    next
      case (shutdown_arm rest)
      with a0 show ?thesis by (simp add: paired_inv_def)
    qed
  qed
qed

lemma paired_inv_exec:
  assumes "exec (startRequestTracker w) es = Inr (ls, t)"
  shows "length es < 2 ^ 63 \<longrightarrow> (\<forall>n. inflight es ls = Some n \<longrightarrow> paired_inv n t)"
  using assms
proof (induction rule: exec_induct)
  case init
  then show ?case
    by (simp add: inflight_Nil paired_inv_def startRequestTracker_def)
next
  case (step es ls t e l t')
  show ?case
  proof (intro impI allI)
    fix n'
    assume len': "length (es @ [e]) < 2 ^ 63" and fl: "inflight (es @ [e]) (ls @ [l]) = Some n'"
    from len' have len: "length es < 2 ^ 63 - 1" by simp
    then have len0: "length es < 2 ^ 63" by simp
    have "length es = length ls" using exec_length[OF step.hyps(1)] by simp
    with fl have pr: "pairing (inflight es ls) (e, l) = Some n'" by (simp add: inflight_snoc)
    then obtain n where n: "inflight es ls = Some n" by (rule pairing_Some)
    with step.IH len0 have p: "paired_inv n t" by simp
    from count_inv_exec[OF step.hyps(1)] len0 have cnt: "count_inv es t" by simp
    from tracker_inv_exec[OF step.hyps(1)] cnt len p step.hyps(2) pr[unfolded n]
    show "paired_inv n' t'" by (rule paired_inv_step)
  qed
qed

lemma exec_take:
  assumes "exec t0 es = Inr (ls, t)"
  shows "\<exists>t'. exec t0 (take k es) = Inr (take k ls, t')"
proof -
  have "exec t0 (take k es @ drop k es) = Inr (ls, t)" using assms by simp
  then obtain ls1 t1 ls2 where 1: "exec t0 (take k es) = Inr (ls1, t1)"
    and 2: "exec t1 (drop k es) = Inr (ls2, t)" and 3: "ls = ls1 @ ls2"
    unfolding exec_append by (auto split: sum.splits)
  from exec_length[OF 1] exec_length[OF assms] 3 have "take k ls = ls1"
    by (auto simp: min_def split: if_splits)
  with 1 show ?thesis by auto
qed

lemma foldl_pairing_None: "foldl pairing None xs = None"
  by (induction xs) auto

lemma inflight_append:
  "length es = length ls \<Longrightarrow>
     inflight (es @ es') (ls @ ls') = foldl pairing (inflight es ls) (zip es' ls')"
  by (simp add: inflight_def)

lemma inflight_take:
  assumes "inflight es ls \<noteq> None" and "length es = length ls"
  shows "inflight (take k es) (take k ls) \<noteq> None"
proof
  assume none: "inflight (take k es) (take k ls) = None"
  have "inflight es ls = inflight (take k es @ drop k es) (take k ls @ drop k ls)" by simp
  also have "\<dots> = foldl pairing (inflight (take k es) (take k ls)) (zip (drop k es) (drop k ls))"
    using assms(2) by (intro inflight_append) simp
  also have "\<dots> = None" by (simp add: none foldl_pairing_None)
  finally show False using assms(1) by simp
qed

text \<open>
  C6. When every \<open>end\<close> follows a \<open>start\<close> of its own that returned nil, the counter
  is never negative: not at the end of the run and not after any of its prefixes,
  whether or not \<open>shutdown\<close> is called on the way. The run is taken shorter than
  \<open>2 ^ 63\<close> events, so that the 64-bit counter cannot wrap.
\<close>

theorem paired_calls_keep_counter_nonnegative:
  assumes "exec (startRequestTracker w) es = Inr (ls, t)" and "inflight es ls \<noteq> None"
    and "length es < 2 ^ 63"
  shows "\<forall>k. \<exists>t'. exec (startRequestTracker w) (take k es) = Inr (take k ls, t') \<and>
           0 \<le> sint (activeRequests t')"
proof
  fix k
  from exec_take[OF assms(1)] obtain t'
    where run: "exec (startRequestTracker w) (take k es) = Inr (take k ls, t')"
    by blast
  have "length es = length ls" using exec_length[OF assms(1)] by simp
  from inflight_take[OF assms(2) this] obtain n
    where n: "inflight (take k es) (take k ls) = Some n"
    by auto
  have "length (take k es) < 2 ^ 63" using assms(3) by simp
  with paired_inv_exec[OF run] n have "paired_inv n t'" by blast
  then have "0 \<le> sint (activeRequests t')" by (simp add: paired_inv_def)
  with run show "\<exists>t'. exec (startRequestTracker w) (take k es) = Inr (take k ls, t') \<and>
           0 \<le> sint (activeRequests t')"
    by blast
qed

theorem paired_calls_keep_counter_nonnegative_witness:
  "\<exists>ls t t'.
     exec (startRequestTracker 30)
       [CallStart, CallStart, LoopCommand, CallShutdown (Some ''Stop''), CallEnd, LoopCommand,
        LoopCommand, LoopCommand, CallEnd, LoopCommand] = Inr (ls, t) \<and>
     inflight [CallStart, CallStart, LoopCommand, CallShutdown (Some ''Stop''), CallEnd, LoopCommand,
        LoopCommand, LoopCommand, CallEnd, LoopCommand] ls = Some 0 \<and>
     length [CallStart, CallStart, LoopCommand, CallShutdown (Some ''Stop''), CallEnd, LoopCommand,
        LoopCommand, LoopCommand, CallEnd, LoopCommand] < (2::nat) ^ 63 \<and>
     exec (startRequestTracker 30)
       (take 8 [CallStart, CallStart, LoopCommand, CallShutdown (Some ''Stop''), CallEnd, LoopCommand,
        LoopCommand, LoopCommand, CallEnd, LoopCommand]) = Inr (take 8 ls, t') \<and>
     activeRequests t' = 1 \<and> stopping t' \<and> 0 \<le> sint (activeRequests t')"
proof -
  let ?es = "[CallStart, CallStart, LoopCommand, CallShutdown (Some ''Stop''), CallEnd, LoopCommand,
        LoopCommand, LoopCommand, CallEnd, LoopCommand]"
  let ?ls = "[Returned None, Returned None, Silent, Silent, Silent, Silent, Silent, Silent, Silent,
        Sent (Some ''Stop'')]"
  let ?t = "\<lparr>C = [Some ''Stop''], shutdownWait = 30, shuttingDown = 1,
      shutdownReason = Some (Ptr (Some ''Stop'')), commandChan = [],
      activeRequests = 0, stopping = True, sentStop = True, graceTimer = Some 30, now = 0\<rparr>"
  let ?t' = "\<lparr>C = [], shutdownWait = 30, shuttingDown = 1,
      shutdownReason = Some (Ptr (Some ''Stop'')), commandChan = [],
      activeRequests = 1, stopping = True, sentStop = False, graceTimer = Some 30, now = 0\<rparr>"
  have run: "exec (startRequestTracker 30) ?es = Inr (?ls, ?t)"
    by (simp add: startRequestTracker_def tracker_start_def tracker_end_def tracker_shutdown_def
        loop_command_def loop_label_def set_sentStop_def sendStop_def)
  have fl: "inflight ?es ?ls = Some 0" by (simp add: inflight_def)
  then have ok: "inflight ?es ?ls \<noteq> None" by simp
  have len: "length ?es < 2 ^ 63" by simp
  have run': "exec (startRequestTracker 30) (take 8 ?es) = Inr (take 8 ?ls, ?t')"
    by (simp add: startRequestTracker_def tracker_start_def tracker_end_def tracker_shutdown_def
        loop_command_def loop_label_def)
  from paired_calls_keep_counter_nonnegative[OF run ok len, THEN spec, of 8] run'
  have nonneg: "0 \<le> sint (activeRequests ?t')" by simp
  have a: "activeRequests ?t' = 1" and s: "stopping ?t'" by simp_all
  show ?thesis
    apply (rule exI[where x = ?ls])
    apply (rule exI[where x = ?t])
    apply (rule exI[where x = ?t'])
    using run fl len run' a s nonneg
    by (intro conjI)
qed

section \<open>A shutdown with a nil reason\<close>





section \<open>The guarded handler\<close>

text \<open>
  C4. The claim asks that \<open>end\<close> run on every way out of the downstream handler, a
  panic included. With a downstream handler that panics, \<open>ServeHTTP\<close> on a fresh tracker
  leaves the \<open>startRequest\<close> it sent without an \<open>endRequest\<close>; with one that returns,
  both are sent.
\<close>

theorem ServeHTTP_panic_skips_end:
  "ServeHTTP SelectMediaType Marshal (\<lambda>resp req d. (Unwinds, resp, d))
     (startRequestTracker 30) resp req d =
     Inr (Unwinds, (startRequestTracker 30)\<lparr>commandChan := [startRequest]\<rparr>, resp, d) \<and>
   ServeHTTP SelectMediaType Marshal (\<lambda>resp req d. (Returns, resp, d))
     (startRequestTracker 30) resp req d =
     Inr (Returns, (startRequestTracker 30)\<lparr>commandChan := [startRequest, endRequest]\<rparr>, resp, d)"
  by (simp add: ServeHTTP_def tracker_start_def tracker_end_def startRequestTracker_def)

text \<open>
  C8. When \<open>start\<close> returns an error, \<open>ServeHTTP\<close> returns with the tracker and the
  downstream state as they were, whatever the downstream handler is, so that handler is
  not called; the response is the given one after setting the header \<open>Content-Type\<close>
  to the selected media type, writing status 503 and writing one body: the JSON
  encoding of the object with \<open>error\<close> \<open>Stopping\<close> and \<open>message\<close> the error's text
  when the selected type is \<open>application/json\<close>, and the error's text otherwise. On
  a response to which nothing was written yet, the client gets status 503, that
  \<open>Content-Type\<close> and that body.
\<close>

theorem rejection_response:
  assumes "tracker_start t = Inr (Some message, t1)"
  shows "t1 = t \<and>
    ServeHTTP SelectMediaType Marshal handler t resp req d =
      Inr (Returns, t,
        Write (if SelectMediaType req [''text/plain'', ''application/json''] = ''application/json''
               then Marshal [''error'' \<mapsto> ''Stopping'', ''message'' \<mapsto> message] else message)
          (WriteHeader 503
            (Header_Set ''Content-Type''
              (SelectMediaType req [''text/plain'', ''application/json'']) resp)), d) \<and>
    (\<forall>handler'. ServeHTTP SelectMediaType Marshal handler' t resp req d =
       ServeHTTP SelectMediaType Marshal handler t resp req d) \<and>
    (\<not> wroteHeader resp \<longrightarrow>
       (\<exists>resp'. ServeHTTP SelectMediaType Marshal handler t resp req d = Inr (Returns, t, resp', d) \<and>
          statusCode resp' = 503 \<and>
          sentHeader resp' ''Content-Type'' =
            Some [SelectMediaType req [''text/plain'', ''application/json'']] \<and>
          body resp' = body resp @
            (if SelectMediaType req [''text/plain'', ''application/json''] = ''application/json''
             then Marshal [''error'' \<mapsto> ''Stopping'', ''message'' \<mapsto> message] else message) \<and>
          header resp' = (header resp)(''Content-Type'' \<mapsto>
            [SelectMediaType req [''text/plain'', ''application/json'']])))"
proof -
  from assms have same: "t1 = t"
    by (auto simp: tracker_start_def split: if_splits option.splits ptr.splits)
  have eq: "ServeHTTP SelectMediaType Marshal h t resp req d =
      Inr (Returns, t,
        Write (if SelectMediaType req [''text/plain'', ''application/json''] = ''application/json''
               then Marshal [''error'' \<mapsto> ''Stopping'', ''message'' \<mapsto> message] else message)
          (WriteHeader 503
            (Header_Set ''Content-Type''
              (SelectMediaType req [''text/plain'', ''application/json'']) resp)), d)" for h
    using assms same by (simp add: ServeHTTP_def Let_def StatusServiceUnavailable_def)
  have fresh: "\<exists>resp'. ServeHTTP SelectMediaType Marshal handler t resp req d = Inr (Returns, t, resp', d) \<and>
          statusCode resp' = 503 \<and>
          sentHeader resp' ''Content-Type'' =
            Some [SelectMediaType req [''text/plain'', ''application/json'']] \<and>
          body resp' = body resp @
            (if SelectMediaType req [''text/plain'', ''application/json''] = ''application/json''
             then Marshal [''error'' \<mapsto> ''Stopping'', ''message'' \<mapsto> message] else message) \<and>
          header resp' = (header resp)(''Content-Type'' \<mapsto>
            [SelectMediaType req [''text/plain'', ''application/json'']])"
    if "\<not> wroteHeader resp"
    using that unfolding eq[of handler]
    by (simp add: Write_def WriteHeader_def Header_Set_def)
  from same eq fresh show ?thesis by (simp only: eq) blast
qed

theorem rejection_response_witness:
  "tracker_start
     \<lparr>C = [], shutdownWait = 30, shuttingDown = 1, shutdownReason = Some (Ptr (Some ''Stop'')),
      commandChan = [], activeRequests = 1, stopping = True, sentStop = False,
      graceTimer = Some 30, now = 0\<rparr> =
     Inr (Some ''Stop'',
     \<lparr>C = [], shutdownWait = 30, shuttingDown = 1, shutdownReason = Some (Ptr (Some ''Stop'')),
      commandChan = [], activeRequests = 1, stopping = True, sentStop = False,
      graceTimer = Some 30, now = 0\<rparr>) \<and>
   ServeHTTP (\<lambda>req choices. ''application/json'') (\<lambda>m. the (m ''error'') @ '':'' @ the (m ''message''))
     (\<lambda>resp req d. (Returns, Write ''Hello, World!'' resp, Suc d))
     \<lparr>C = [], shutdownWait = 30, shuttingDown = 1, shutdownReason = Some (Ptr (Some ''Stop'')),
      commandChan = [], activeRequests = 1, stopping = True, sentStop = False,
      graceTimer = Some 30, now = 0\<rparr>
     \<lparr>header = Map.empty, wroteHeader = False, statusCode = 0, sentHeader = Map.empty, body = []\<rparr>
     () (0::nat) =
   Inr (Returns,
     \<lparr>C = [], shutdownWait = 30, shuttingDown = 1, shutdownReason = Some (Ptr (Some ''Stop'')),
      commandChan = [], activeRequests = 1, stopping = True, sentStop = False,
      graceTimer = Some 30, now = 0\<rparr>,
     \<lparr>header = [''Content-Type'' \<mapsto> [''application/json'']], wroteHeader = True,
      statusCode = 503, sentHeader = [''Content-Type'' \<mapsto> [''application/json'']],
      body = ''Stopping:Stop''\<rparr>, 0)"
proof -
  let ?t = "\<lparr>C = [], shutdownWait = 30, shuttingDown = 1, shutdownReason = Some (Ptr (Some ''Stop'')),
      commandChan = [], activeRequests = 1, stopping = True, sentStop = False,
      graceTimer = Some 30, now = 0\<rparr>"
  have start: "tracker_start ?t = Inr (Some ''Stop'', ?t)"
    by (simp add: tracker_start_def)
  note th = rejection_response[OF start,
      of "\<lambda>req choices. ''application/json''" "\<lambda>m. the (m ''error'') @ '':'' @ the (m ''message'')"
        "\<lambda>resp req d. (Returns, Write ''Hello, World!'' resp, Suc d)"
        "\<lparr>header = Map.empty, wroteHeader = False, statusCode = 0, sentHeader = Map.empty, body = []\<rparr>"
        "()" "0::nat"]
  from th[THEN conjunct2, THEN conjunct1] start show ?thesis
    by (simp add: Write_def WriteHeader_def Header_Set_def)
qed

section \<open>Listen\<close>








end
